theory Spec2Isabelle
  imports Complex_Main "HOL-Library.AList" "HOL-Library.Product_Lexorder"
begin

section \<open>Python values\<close>

text \<open>
  The exceptions that the modelled code can raise. A query returns \<open>error + 'a\<close>
  (\<open>Inl\<close> is the exception); a method that mutates \<open>self\<close> returns the exception, if
  any, together with the state of \<open>self\<close> at that moment, so that a mutation made before
  a failing assertion stays visible.
\<close>

datatype error =
  AssertionError | KeyError | TypeError | AttributeError | ValueError | ShapeError
  | NetworkXError

text \<open>
  Vertex labels are integers (the labels of every documented example), so \<open>sorted\<close>
  never raises on them. Coordinates are exact rationals. A point is either a plain
  Python sequence (list or tuple) or a sympy column matrix: the framework stores both
  kinds, and only matrices support subtraction.
\<close>

type_synonym vertex = int
type_synonym edge = "vertex \<times> vertex"

datatype point = PySeq "rat list" | PyMat "rat list"

fun coords :: "point \<Rightarrow> rat list" where
  "coords (PySeq xs) = xs"
| "coords (PyMat xs) = xs"

text \<open>Python's \<open>len\<close>: the number of entries of a sequence or of a column matrix.\<close>

definition len :: "point \<Rightarrow> nat" where
  "len p = length (coords p)"

text \<open>sympy's \<open>Matrix(point)\<close>: the column matrix of the entries.\<close>

definition Matrix :: "point \<Rightarrow> point" where
  "Matrix p = PyMat (coords p)"

text \<open>
  A Python dict keeps its keys in insertion order: an association list, read with
  \<open>map_of\<close>, written with \<open>AList.update\<close> (an existing key keeps its place, a new one
  goes last).
\<close>

type_synonym realization = "(vertex \<times> point) list"

section \<open>The graph collaborator\<close>

text \<open>
  Modelled from the spec: the class \<open>Graph\<close> of \<open>pyrigi/graph.py\<close> is not part of the
  sources at hand. The spec asks of it vertex enumeration, edge enumeration (unordered
  pairs, each listed once), and vertex and edge deletion. The lists are in the graph's
  native iteration order.
\<close>

record graph =
  nodes :: "vertex list"
  edges :: "edge list"

definition vertices :: "graph \<Rightarrow> vertex list" where
  "vertices g = nodes g"

text \<open>Modelled from the spec: whether an unordered pair is an edge of the graph.\<close>

definition has_edge :: "graph \<Rightarrow> edge \<Rightarrow> bool" where
  "has_edge g e = (e \<in> set (edges g) \<or> (snd e, fst e) \<in> set (edges g))"

text \<open>
  Modelled from the spec: \<open>Graph.delete_edge\<close> removes the edge and fails when the graph
  has no such edge.
\<close>

definition graph_delete_edge :: "graph \<Rightarrow> edge \<Rightarrow> error + graph" where
  "graph_delete_edge g e =
     (if has_edge g e
      then Inr (g\<lparr>edges := filter (\<lambda>x. x \<noteq> e \<and> x \<noteq> (snd e, fst e)) (edges g)\<rparr>)
      else Inl NetworkXError)"

text \<open>
  Modelled from the spec: \<open>Graph.delete_vertex\<close> removes the vertex together with its
  incident edges and fails when the vertex is not in the graph.
\<close>

definition graph_delete_vertex :: "graph \<Rightarrow> vertex \<Rightarrow> error + graph" where
  "graph_delete_vertex g v =
     (if v \<in> set (nodes g)
      then Inr \<lparr>nodes = removeAll v (nodes g),
                edges = filter (\<lambda>x. fst x \<noteq> v \<and> snd x \<noteq> v) (edges g)\<rparr>
      else Inl NetworkXError)"

text \<open>Modelled from the spec: \<open>add_node\<close> adds a vertex; a vertex already there stays.\<close>

definition add_node :: "graph \<Rightarrow> vertex \<Rightarrow> graph" where
  "add_node g v = (if v \<in> set (nodes g) then g else g\<lparr>nodes := nodes g @ [v]\<rparr>)"

section \<open>The framework\<close>

record framework =
  fw_graph :: graph
  fw_realization :: realization
  fw_dim :: int

text \<open>
  The loop of assertions shared by the constructor and \<open>set_realization\<close>: every vertex
  has an entry, of the given length.
\<close>

fun check_vertices :: "vertex list \<Rightarrow> realization \<Rightarrow> int \<Rightarrow> error option" where
  "check_vertices [] r d = None"
| "check_vertices (v # vs) r d =
     (case map_of r v of
        None \<Rightarrow> Some AssertionError
      | Some p \<Rightarrow>
          if int (len p) \<noteq> d then Some AssertionError else check_vertices vs r d)"

text \<open>
  \<open>Framework.__init__\<close>. The dict comprehension runs after the assertions, when every
  vertex has an entry.
\<close>

definition Framework_init :: "graph \<Rightarrow> realization \<Rightarrow> int \<Rightarrow> error + framework" where
  "Framework_init g r dim_arg =
     (let dimension = (case r of [] \<Rightarrow> dim_arg | (_, p) # _ \<Rightarrow> int (len p)) in
      case check_vertices (vertices g) r dimension of
        Some e \<Rightarrow> Inl e
      | None \<Rightarrow>
          Inr \<lparr>fw_graph = g,
               fw_realization =
                 List.map_filter (\<lambda>v. map_option (\<lambda>p. (v, Matrix p)) (map_of r v)) (vertices g),
               fw_dim = dimension\<rparr>)"

definition dimension :: "framework \<Rightarrow> int" where
  "dimension F = fw_dim F"


section \<open>Exact linear algebra\<close>

text \<open>
  The parts of sympy that the framework calls, over the rationals. A matrix is the list
  of its rows. \<open>Matrix(rows)\<close> skips the rows that are empty and takes the number of
  columns from the rows that are left, which must agree in length; so the matrix of an
  empty list of rows, or of empty rows only, is \<open>0 \<times> 0\<close>.
\<close>

type_synonym matrix = "rat list list"

definition Matrix_rows :: "rat list list \<Rightarrow> error + matrix" where
  "Matrix_rows rs =
     (case filter (\<lambda>r. r \<noteq> []) rs of
        [] \<Rightarrow> Inr []
      | r # rest \<Rightarrow>
          if list_all (\<lambda>x. length x = length r) rest then Inr (r # rest)
          else Inl ValueError)"

definition rows :: "matrix \<Rightarrow> nat" where
  "rows M = length M"

definition cols :: "matrix \<Rightarrow> nat" where
  "cols M = (case M of [] \<Rightarrow> 0 | r # _ \<Rightarrow> length r)"

text \<open>
  Gauss-Jordan elimination, column by column: the first row at or below the current one
  with a non-zero entry in the column is swapped up, scaled to a leading one and
  subtracted from every other row. The first argument counts the columns still to visit.
  The result is the reduced row echelon form with the list of pivot columns, as
  \<open>Matrix.rref\<close> returns them.
\<close>

definition eliminate :: "nat \<Rightarrow> rat list \<Rightarrow> rat list \<Rightarrow> rat list" where
  "eliminate j p r = map2 (\<lambda>x y. y - (r ! j) * x) p r"

fun find_pivot :: "nat \<Rightarrow> matrix \<Rightarrow> nat option" where
  "find_pivot j [] = None"
| "find_pivot j (r # rs) =
     (if r ! j \<noteq> 0 then Some 0 else map_option Suc (find_pivot j rs))"

fun rref_from :: "nat \<Rightarrow> nat \<Rightarrow> matrix \<Rightarrow> matrix \<Rightarrow> nat list \<Rightarrow> matrix \<times> nat list" where
  "rref_from 0 j upper rest pivots = (upper @ rest, pivots)"
| "rref_from (Suc n) j upper rest pivots =
     (case find_pivot j rest of
        None \<Rightarrow> rref_from n (Suc j) upper rest pivots
      | Some k \<Rightarrow>
          (let row = rest ! k;
               others = tl (rest[k := hd rest]);
               p = map (\<lambda>x. x / (row ! j)) row
           in rref_from n (Suc j) (map (eliminate j p) upper @ [p])
                (map (eliminate j p) others) (pivots @ [j])))"

definition rref :: "matrix \<Rightarrow> matrix \<times> nat list" where
  "rref M = rref_from (cols M) 0 [] M []"

definition rank :: "matrix \<Rightarrow> nat" where
  "rank M = length (snd (rref M))"

text \<open>
  \<open>Matrix.nullspace\<close>: one vector for each column without a pivot, with a one at that
  column and, at each pivot column, minus the entry of the pivot's row of the reduced
  form.
\<close>

definition nullspace_vector :: "matrix \<Rightarrow> nat list \<Rightarrow> nat \<Rightarrow> nat \<Rightarrow> rat list" where
  "nullspace_vector R pivots n free =
     foldl (\<lambda>vec (i, c). vec[c := vec ! c - R ! i ! free])
       ((replicate n 0)[free := 1]) (zip [0..<length pivots] pivots)"

definition nullspace :: "matrix \<Rightarrow> rat list list" where
  "nullspace M =
     (let (R, pivots) = rref M in
      map (nullspace_vector R pivots (cols M))
        (filter (\<lambda>i. i \<notin> set pivots) [0..<cols M]))"

text \<open>
  \<open>Matrix.orthogonalize(*vecs, rankcheck=False)\<close>, Gram-Schmidt: leading zero vectors
  are dropped, each vector loses its projections onto the vectors kept so far, and it is
  kept when what remains is not zero.
\<close>

definition dot :: "rat list \<Rightarrow> rat list \<Rightarrow> rat" where
  "dot a b = sum_list (map2 (*) a b)"

definition is_zero_matrix :: "rat list \<Rightarrow> bool" where
  "is_zero_matrix v = list_all (\<lambda>x. x = 0) v"

definition project :: "rat list \<Rightarrow> rat list \<Rightarrow> rat list" where
  "project a b = map (\<lambda>x. x * (dot a b / dot b b)) b"

definition perp_to_subspace :: "rat list \<Rightarrow> rat list list \<Rightarrow> rat list" where
  "perp_to_subspace vec basis = foldl (\<lambda>acc b. map2 (-) acc (project vec b)) vec basis"

definition keep_nonzero :: "rat list list \<Rightarrow> rat list \<Rightarrow> rat list list" where
  "keep_nonzero ret perp = (if \<not> is_zero_matrix perp then ret @ [perp] else ret)"

fun gram_schmidt :: "rat list list \<Rightarrow> rat list list \<Rightarrow> rat list list" where
  "gram_schmidt ret [] = ret"
| "gram_schmidt ret (vec # vecs) =
     gram_schmidt (keep_nonzero ret (perp_to_subspace vec ret)) vecs"

definition orthogonalize :: "rat list list \<Rightarrow> rat list list" where
  "orthogonalize vecs = gram_schmidt [] (dropWhile is_zero_matrix vecs)"

section \<open>The rigidity matrix\<close>

text \<open>
  A list comprehension whose body may raise: the elements are computed from left to
  right and the first exception ends it.
\<close>

fun collect :: "('a \<Rightarrow> error + 'b) \<Rightarrow> 'a list \<Rightarrow> error + 'b list" where
  "collect f [] = Inr []"
| "collect f (x # xs) =
     (case f x of
        Inl e \<Rightarrow> Inl e
      | Inr y \<Rightarrow> (case collect f xs of Inl e \<Rightarrow> Inl e | Inr ys \<Rightarrow> Inr (y # ys)))"

definition dict_get :: "realization \<Rightarrow> vertex \<Rightarrow> error + point" where
  "dict_get r v = (case map_of r v of None \<Rightarrow> Inl KeyError | Some p \<Rightarrow> Inr p)"

text \<open>
  The difference of two stored points. Only sympy matrices can be subtracted, and only
  when their shapes agree.
\<close>

fun py_sub :: "point \<Rightarrow> point \<Rightarrow> error + rat list" where
  "py_sub (PyMat a) (PyMat b) =
     (if length a = length b then Inr (map2 (-) a b) else Inl ShapeError)"
| "py_sub (PySeq a) q = Inl TypeError"
| "py_sub p (PySeq b) = Inl TypeError"

text \<open>Python's \<open>sorted\<close>; on integers and on pairs of integers it cannot raise.\<close>

definition py_sorted :: "('a::linorder) list \<Rightarrow> error + 'a list" where
  "py_sorted xs = Inr (sort xs)"

definition delta :: "vertex \<Rightarrow> vertex \<Rightarrow> vertex \<Rightarrow> rat" where
  "delta u v w = (if w = u then 1 else if w = v then - 1 else 0)"

text \<open>The block of the row of edge \<open>(u, v)\<close> in the columns of vertex \<open>w\<close>.\<close>

definition block :: "framework \<Rightarrow> vertex \<Rightarrow> vertex \<Rightarrow> vertex \<Rightarrow> error + rat list" where
  "block F u v w =
     (case dict_get (fw_realization F) u of
        Inl e \<Rightarrow> Inl e
      | Inr pu \<Rightarrow>
          (case dict_get (fw_realization F) v of
             Inl e \<Rightarrow> Inl e
           | Inr pv \<Rightarrow>
               (case py_sub pu pv of
                  Inl e \<Rightarrow> Inl e
                | Inr d \<Rightarrow> Inr (map (\<lambda>x. delta u v w * x) d))))"

definition matrix_row :: "framework \<Rightarrow> vertex list \<Rightarrow> edge \<Rightarrow> error + rat list" where
  "matrix_row F vertex_order e =
     (case collect (block F (fst e) (snd e)) vertex_order of
        Inl err \<Rightarrow> Inl err
      | Inr blocks \<Rightarrow> Inr (concat blocks))"

text \<open>
  The \<open>try\<close> block that fixes the vertex order: sorted when none is given (the native
  order if sorting raises \<open>TypeError\<close>), otherwise the given list, which must have the
  graph's vertices as its set.
\<close>

definition choose_vertex_order :: "framework \<Rightarrow> vertex list option \<Rightarrow> error + vertex list" where
  "choose_vertex_order F vertex_order =
     (case vertex_order of
        None \<Rightarrow>
          (case py_sorted (vertices (fw_graph F)) of
             Inl TypeError \<Rightarrow> Inr (vertices (fw_graph F))
           | Inl e \<Rightarrow> Inl e
           | Inr order \<Rightarrow> Inr order)
      | Some order \<Rightarrow>
          if set (vertices (fw_graph F)) = set order then Inr order
          else Inl AssertionError)"

definition rigidity_matrix ::
  "framework \<Rightarrow> vertex list option \<Rightarrow> bool \<Rightarrow> error + matrix" where
  "rigidity_matrix F vertex_order edges_ordered =
     (case choose_vertex_order F vertex_order of
        Inl e \<Rightarrow> Inl e
      | Inr order \<Rightarrow>
          (case (if edges_ordered then py_sorted (edges (fw_graph F))
                 else Inr (edges (fw_graph F))) of
             Inl e \<Rightarrow> Inl e
           | Inr edge_order \<Rightarrow>
               (case collect (matrix_row F order) edge_order of
                  Inl e \<Rightarrow> Inl e
                | Inr rs \<Rightarrow> Matrix_rows rs)))"

definition rigidity_matrix_rank :: "framework \<Rightarrow> error + nat" where
  "rigidity_matrix_rank F =
     (case rigidity_matrix F None True of Inl e \<Rightarrow> Inl e | Inr M \<Rightarrow> Inr (rank M))"

section \<open>Infinitesimal flexes\<close>

text \<open>
  networkx's \<open>complete_graph(n)\<close> has the vertices \<open>0, ..., n - 1\<close> and every pair
  \<open>(i, j)\<close> with \<open>i < j\<close> as an edge.
\<close>

definition complete_graph_edges :: "nat \<Rightarrow> edge list" where
  "complete_graph_edges n =
     concat (map (\<lambda>i. map (\<lambda>j. (int i, int j)) [Suc i..<n]) [0..<n])"

text \<open>
  Modelled from the spec: \<open>Graph(edges)\<close>, the graph of a list of edges. Its vertices
  are the endpoints of the edges, in the order of their first appearance.
\<close>

definition Graph_init :: "edge list \<Rightarrow> graph" where
  "Graph_init es =
     \<lparr>nodes = rev (remdups (rev (concat (map (\<lambda>e. [fst e, snd e]) es)))), edges = es\<rparr>"

definition get_realization :: "framework \<Rightarrow> realization" where
  "get_realization F = fw_realization F"

text \<open>The branch \<open>include_trivial=True\<close> of \<open>infinitesimal_flexes\<close>.\<close>

definition all_infinitesimal_flexes :: "framework \<Rightarrow> error + rat list list" where
  "all_infinitesimal_flexes F =
     (case rigidity_matrix F None True of Inl e \<Rightarrow> Inl e | Inr M \<Rightarrow> Inr (nullspace M))"

definition trivial_infinitesimal_flexes :: "framework \<Rightarrow> error + rat list list" where
  "trivial_infinitesimal_flexes F =
     (let K = complete_graph_edges (length (vertices (fw_graph F))) in
      case Framework_init (Graph_init K) (get_realization F) (dimension F) of
        Inl e \<Rightarrow> Inl e
      | Inr FK \<Rightarrow> all_infinitesimal_flexes FK)"

text \<open>Python's slice \<open>xs[a:b]\<close> for indices that are not negative.\<close>

definition slice :: "'a list \<Rightarrow> nat \<Rightarrow> nat \<Rightarrow> 'a list" where
  "slice xs a b = take (b - a) (drop a xs)"

definition infinitesimal_flexes :: "framework \<Rightarrow> bool \<Rightarrow> error + rat list list" where
  "infinitesimal_flexes F include_trivial =
     (if include_trivial then all_infinitesimal_flexes F
      else
        (case trivial_infinitesimal_flexes F of
           Inl e \<Rightarrow> Inl e
         | Inr trivial_flexes \<Rightarrow>
             (case rigidity_matrix F None True of
                Inl e \<Rightarrow> Inl e
              | Inr M \<Rightarrow>
                  (let all_flexes = nullspace M;
                       basis_flexspace = orthogonalize (trivial_flexes @ all_flexes)
                   in Inr (slice basis_flexspace (length trivial_flexes)
                             (length all_flexes + 1))))))"

definition nontrivial_infinitesimal_flexes :: "framework \<Rightarrow> error + rat list list" where
  "nontrivial_infinitesimal_flexes F = infinitesimal_flexes F False"

section \<open>Rigidity predicates\<close>

definition is_infinitesimally_rigid :: "framework \<Rightarrow> error + bool" where
  "is_infinitesimally_rigid F =
     (if length (vertices (fw_graph F)) \<le> 1 then Inr True
      else
        (case rigidity_matrix_rank F of
           Inl e \<Rightarrow> Inl e
         | Inr r \<Rightarrow>
             Inr (int r =
                  dimension F * int (length (vertices (fw_graph F)))
                  - (dimension F * (dimension F + 1)) div 2)))"

definition is_infinitesimally_flexible :: "framework \<Rightarrow> error + bool" where
  "is_infinitesimally_flexible F =
     (case is_infinitesimally_rigid F of Inl e \<Rightarrow> Inl e | Inr b \<Rightarrow> Inr (\<not> b))"

section \<open>Mutation\<close>

definition delete_edge :: "framework \<Rightarrow> edge \<Rightarrow> error option \<times> framework" where
  "delete_edge F e =
     (case graph_delete_edge (fw_graph F) e of
        Inl err \<Rightarrow> (Some err, F)
      | Inr g \<Rightarrow> (None, F\<lparr>fw_graph := g\<rparr>))"

text \<open>The \<open>while\<close> loop of \<open>add_vertex\<close>: count up from the candidate to a free label.\<close>

function first_unused :: "vertex list \<Rightarrow> int \<Rightarrow> int" where
  "first_unused vs candidate =
     (if candidate \<in> set vs then first_unused vs (candidate + 1) else candidate)"
  by pat_completeness auto
termination
proof (relation "measure (\<lambda>(vs, c). card {x \<in> set vs. c \<le> x})")
  show "wf (measure (\<lambda>(vs, c). card {x \<in> set vs. c \<le> x}))"
    by simp
next
  fix vs :: "vertex list" and candidate :: int
  assume mem: "candidate \<in> set vs"
  have "candidate \<in> {x \<in> set vs. candidate \<le> x}"
    and "candidate \<notin> {x \<in> set vs. candidate + 1 \<le> x}"
    and "{x \<in> set vs. candidate + 1 \<le> x} \<subseteq> {x \<in> set vs. candidate \<le> x}"
    using mem by auto
  then have "{x \<in> set vs. candidate + 1 \<le> x} \<subset> {x \<in> set vs. candidate \<le> x}"
    by blast
  then have "card {x \<in> set vs. candidate + 1 \<le> x} < card {x \<in> set vs. candidate \<le> x}"
    by (intro psubset_card_mono) simp_all
  then show "((vs, candidate + 1), (vs, candidate))
      \<in> measure (\<lambda>(vs, c). card {x \<in> set vs. c \<le> x})"
    by simp
qed

declare first_unused.simps [simp del]

definition add_vertex :: "framework \<Rightarrow> point \<Rightarrow> vertex option \<Rightarrow> error option \<times> framework" where
  "add_vertex F point vertex_arg =
     (let vertex =
        (case vertex_arg of
           None \<Rightarrow>
             first_unused (vertices (fw_graph F)) (int (length (vertices (fw_graph F))))
         | Some v \<Rightarrow> v)
      in if vertex \<in> set (vertices (fw_graph F)) then (Some AssertionError, F)
         else (None, F\<lparr>fw_realization := AList.update vertex (Matrix point) (fw_realization F),
                       fw_graph := add_node (fw_graph F) vertex\<rparr>))"

definition delete_vertex :: "framework \<Rightarrow> vertex \<Rightarrow> error option \<times> framework" where
  "delete_vertex F vertex =
     (case graph_delete_vertex (fw_graph F) vertex of
        Inl err \<Rightarrow> (Some err, F)
      | Inr g \<Rightarrow>
          (let F1 = F\<lparr>fw_graph := g\<rparr> in
           if map_of (fw_realization F1) vertex = None then (Some KeyError, F1)
           else (None, F1\<lparr>fw_realization := AList.delete vertex (fw_realization F1)\<rparr>)))"

definition set_realization :: "framework \<Rightarrow> realization \<Rightarrow> error option \<times> framework" where
  "set_realization F r =
     (case check_vertices (vertices (fw_graph F)) r (dimension F) of
        Some e \<Rightarrow> (Some e, F)
      | None \<Rightarrow> (None, F\<lparr>fw_realization := r\<rparr>))"

definition change_vertex_coordinates ::
  "framework \<Rightarrow> vertex \<Rightarrow> point \<Rightarrow> error option \<times> framework" where
  "change_vertex_coordinates F vertex point =
     (if map_of (fw_realization F) vertex = None then (Some AssertionError, F)
      else if int (len point) \<noteq> fw_dim F then (Some AssertionError, F)
      else (None, F\<lparr>fw_realization := AList.update vertex point (fw_realization F)\<rparr>))"

definition set_vertex_position ::
  "framework \<Rightarrow> vertex \<Rightarrow> point \<Rightarrow> error option \<times> framework" where
  "set_vertex_position F vertex point = change_vertex_coordinates F vertex point"

text \<open>
  \<open>list.sort()\<close> sorts in place and returns \<open>None\<close>: the pair is the sorted list and the
  value returned.
\<close>

definition sort_method :: "vertex list \<Rightarrow> vertex list \<times> unit" where
  "sort_method xs = (sort xs, ())"

text \<open>
  The loop of the batch update. Whether \<open>vertices[i]\<close> can be evaluated depends on the
  argument: a list can be indexed, the views \<open>keys()\<close> and \<open>values()\<close> of a dict cannot.
\<close>

fun update_each :: "bool \<Rightarrow> framework \<Rightarrow> (vertex \<times> point) list \<Rightarrow> error option \<times> framework" where
  "update_each indexable F [] = (None, F)"
| "update_each indexable F ((v, p) # rest) =
     (if \<not> indexable then (Some TypeError, F)
      else
        (case change_vertex_coordinates F v p of
           (Some e, F') \<Rightarrow> (Some e, F')
         | (None, F') \<Rightarrow> update_each indexable F' rest))"

definition change_vertex_coordinates_seq ::
  "bool \<Rightarrow> framework \<Rightarrow> vertex list \<Rightarrow> point list \<Rightarrow> error option \<times> framework" where
  "change_vertex_coordinates_seq indexable F vs points =
     (if snd (sort_method (remdups vs)) \<noteq> snd (sort_method vs) then (Some AttributeError, F)
      else if length vs \<noteq> length points then (Some AssertionError, F)
      else update_each indexable F (zip vs points))"

definition change_vertex_coordinates_list ::
  "framework \<Rightarrow> vertex list \<Rightarrow> point list \<Rightarrow> error option \<times> framework" where
  "change_vertex_coordinates_list F vs points = change_vertex_coordinates_seq True F vs points"

definition set_vertex_positions ::
  "framework \<Rightarrow> vertex list \<Rightarrow> point list \<Rightarrow> error option \<times> framework" where
  "set_vertex_positions F vs points = change_vertex_coordinates_list F vs points"

definition change_realization :: "framework \<Rightarrow> realization \<Rightarrow> error option \<times> framework" where
  "change_realization F subset_of_realization =
     change_vertex_coordinates_seq False F
       (map fst subset_of_realization) (map snd subset_of_realization)"

section \<open>Edge-deletion trials\<close>

text \<open>
  The trials mutate a copy of \<open>self\<close>. To tell a copy from an alias, the frameworks live
  in a store, a list indexed by address: \<open>deepcopy\<close> allocates a new object, and a
  mutating method replaces the object at the address it is called on.
\<close>

type_synonym store = "framework list"

definition deepcopy :: "store \<Rightarrow> nat \<Rightarrow> store \<times> nat" where
  "deepcopy h a = (h @ [h ! a], length h)"

text \<open>
  A call \<open>obj.method(args)\<close> of a method that declares no parameter but \<open>self\<close>: any
  further positional argument is a \<open>TypeError\<close>.
\<close>

definition call_no_args :: "(framework \<Rightarrow> error + 'a) \<Rightarrow> framework \<Rightarrow> framework list \<Rightarrow> error + 'a" where
  "call_no_args method obj args = (if args = [] then method obj else Inl TypeError)"

fun minimally_rigid_trials :: "store \<Rightarrow> nat \<Rightarrow> edge list \<Rightarrow> store \<times> (error + bool)" where
  "minimally_rigid_trials h self [] = (h, Inr True)"
| "minimally_rigid_trials h self (edge # rest) =
     (let (h1, F) = deepcopy h self in
      case delete_edge (h1 ! F) edge of
        (Some e, F') \<Rightarrow> (h1[F := F'], Inl e)
      | (None, F') \<Rightarrow>
          (let h2 = h1[F := F'] in
           case call_no_args is_infinitesimally_rigid (h2 ! F) [] of
             Inl e \<Rightarrow> (h2, Inl e)
           | Inr b \<Rightarrow> if b then (h2, Inr False) else minimally_rigid_trials h2 self rest))"

definition is_minimally_infinitesimally_rigid :: "store \<Rightarrow> nat \<Rightarrow> store \<times> (error + bool)" where
  "is_minimally_infinitesimally_rigid h self =
     (case is_infinitesimally_rigid (h ! self) of
        Inl e \<Rightarrow> (h, Inl e)
      | Inr b \<Rightarrow>
          if \<not> b then (h, Inr False)
          else minimally_rigid_trials h self (edges (fw_graph (h ! self))))"

fun redundantly_rigid_trials :: "store \<Rightarrow> nat \<Rightarrow> edge list \<Rightarrow> store \<times> (error + bool)" where
  "redundantly_rigid_trials h self [] = (h, Inr True)"
| "redundantly_rigid_trials h self (edge # rest) =
     (let (h1, F) = deepcopy h self in
      case delete_edge (h1 ! F) edge of
        (Some e, F') \<Rightarrow> (h1[F := F'], Inl e)
      | (None, F') \<Rightarrow>
          (let h2 = h1[F := F'] in
           case call_no_args is_infinitesimally_rigid (h2 ! F) [h2 ! F] of
             Inl e \<Rightarrow> (h2, Inl e)
           | Inr b \<Rightarrow> if \<not> b then (h2, Inr False) else redundantly_rigid_trials h2 self rest))"

definition is_redundantly_rigid :: "store \<Rightarrow> nat \<Rightarrow> store \<times> (error + bool)" where
  "is_redundantly_rigid h self =
     redundantly_rigid_trials h self (edges (fw_graph (h ! self)))"

section \<open>Invariants\<close>

text \<open>
  The invariant of the data model: every vertex of the graph has exactly one entry in
  the realization, and every vector of the realization has length \<open>dim\<close>.
\<close>

definition framework_invariant :: "framework \<Rightarrow> bool" where
  "framework_invariant F =
     (distinct (map fst (fw_realization F)) \<and>
      list_all (\<lambda>v. map_of (fw_realization F) v \<noteq> None) (vertices (fw_graph F)) \<and>
      list_all (\<lambda>kp. int (len (snd kp)) = fw_dim F) (fw_realization F))"

text \<open>
  What the graph collaborator maintains: no vertex is listed twice and the endpoints of
  every edge are vertices.
\<close>

definition graph_ok :: "graph \<Rightarrow> bool" where
  "graph_ok g =
     (distinct (nodes g) \<and>
      list_all (\<lambda>e. fst e \<in> set (nodes g) \<and> snd e \<in> set (nodes g)) (edges g))"

fun is_matrix :: "point \<Rightarrow> bool" where
  "is_matrix (PyMat xs) = True"
| "is_matrix (PySeq xs) = False"

text \<open>
  A well-formed framework: the invariant holds, the graph is sound, and the stored
  points are sympy matrices (as the constructor and \<open>add_vertex\<close> store them).
\<close>

definition well_formed :: "framework \<Rightarrow> bool" where
  "well_formed F =
     (framework_invariant F \<and> graph_ok (fw_graph F) \<and>
      list_all (\<lambda>kp. is_matrix (snd kp)) (fw_realization F))"

text \<open>The coordinates stored for a vertex.\<close>

definition position :: "framework \<Rightarrow> vertex \<Rightarrow> rat list" where
  "position F v = (case map_of (fw_realization F) v of None \<Rightarrow> [] | Some p \<Rightarrow> coords p)"

text \<open>The state of a framework after \<open>delete_edge\<close>.\<close>

definition without_edge :: "framework \<Rightarrow> edge \<Rightarrow> framework" where
  "without_edge F e = snd (delete_edge F e)"

definition rigid :: "framework \<Rightarrow> bool" where
  "rigid F = (is_infinitesimally_rigid F = Inr True)"

definition flexible :: "framework \<Rightarrow> bool" where
  "flexible F = (is_infinitesimally_flexible F = Inr True)"

text \<open>
  The row of an edge under a vertex order, block by block, and the order in which the
  rows follow one another.
\<close>

definition edge_block :: "framework \<Rightarrow> edge \<Rightarrow> vertex \<Rightarrow> rat list" where
  "edge_block F e w =
     map (\<lambda>x. delta (fst e) (snd e) w * x) (map2 (-) (position F (fst e)) (position F (snd e)))"

definition edge_row :: "framework \<Rightarrow> vertex list \<Rightarrow> edge \<Rightarrow> rat list" where
  "edge_row F order e = concat (map (edge_block F e) order)"

definition edge_order_of :: "framework \<Rightarrow> bool \<Rightarrow> edge list" where
  "edge_order_of F edges_ordered =
     (if edges_ordered then sort (edges (fw_graph F)) else edges (fw_graph F))"

text \<open>The rigidity matrix under the default orders, when no row fails.\<close>

definition default_matrix :: "framework \<Rightarrow> matrix" where
  "default_matrix F =
     (if nat (dimension F) * length (vertices (fw_graph F)) = 0 then []
      else map (edge_row F (sort (vertices (fw_graph F)))) (edge_order_of F True))"

text \<open>
  The edges that a run of deletion trials gets to: those before the first edge whose
  removal leaves the framework rigid, and that edge.
\<close>

fun tried_edges :: "framework \<Rightarrow> edge list \<Rightarrow> edge list" where
  "tried_edges F [] = []"
| "tried_edges F (e # es) =
     (if rigid (without_edge F e) then [e] else e # tried_edges F es)"

text \<open>
  Frameworks of the plane: a triangle, a square with both diagonals, three points on a
  line with all three edges, and two points without an edge; and an edge in dimension
  zero.
\<close>

definition triangle :: framework where
  "triangle =
     \<lparr>fw_graph = \<lparr>nodes = [0, 1, 2], edges = [(0, 1), (0, 2), (1, 2)]\<rparr>,
      fw_realization = [(0, PyMat [0, 0]), (1, PyMat [1, 0]), (2, PyMat [0, 1])],
      fw_dim = 2\<rparr>"

definition braced_square :: framework where
  "braced_square =
     \<lparr>fw_graph = \<lparr>nodes = [0, 1, 2, 3],
                   edges = [(0, 1), (0, 2), (0, 3), (1, 2), (1, 3), (2, 3)]\<rparr>,
      fw_realization =
        [(0, PyMat [0, 0]), (1, PyMat [1, 0]), (2, PyMat [0, 1]), (3, PyMat [1, 1])],
      fw_dim = 2\<rparr>"

text \<open>The framework that \<open>Framework()\<close> builds, and one whose labels leave a gap.\<close>

definition empty_framework :: framework where
  "empty_framework = \<lparr>fw_graph = \<lparr>nodes = [], edges = []\<rparr>, fw_realization = [], fw_dim = 2\<rparr>"

definition gap_framework :: framework where
  "gap_framework =
     \<lparr>fw_graph = \<lparr>nodes = [0, 2, 3], edges = []\<rparr>,
      fw_realization = [(0, PyMat [0, 0]), (2, PyMat [1, 0]), (3, PyMat [0, 1])],
      fw_dim = 2\<rparr>"

definition collinear_triangle :: framework where
  "collinear_triangle =
     \<lparr>fw_graph = \<lparr>nodes = [0, 1, 2], edges = [(0, 1), (0, 2), (1, 2)]\<rparr>,
      fw_realization = [(0, PyMat [0, 0]), (1, PyMat [1, 0]), (2, PyMat [2, 0])],
      fw_dim = 2\<rparr>"

definition zero_dim_edge :: framework where
  "zero_dim_edge =
     \<lparr>fw_graph = \<lparr>nodes = [0, 1], edges = [(0, 1)]\<rparr>,
      fw_realization = [(0, PyMat []), (1, PyMat [])],
      fw_dim = 0\<rparr>"

definition two_points :: framework where
  "two_points =
     \<lparr>fw_graph = \<lparr>nodes = [0, 1], edges = []\<rparr>,
      fw_realization = [(0, PyMat [0, 0]), (1, PyMat [1, 0])],
      fw_dim = 2\<rparr>"

text \<open>The path \<open>0 - 1 - 2\<close> on the points of the triangle.\<close>

definition path_framework :: framework where
  "path_framework =
     \<lparr>fw_graph = \<lparr>nodes = [0, 1, 2], edges = [(0, 1), (1, 2)]\<rparr>,
      fw_realization = [(0, PyMat [0, 0]), (1, PyMat [1, 0]), (2, PyMat [0, 1])],
      fw_dim = 2\<rparr>"

section \<open>Notions for the proofs about the flexes\<close>

text \<open>
  A vector solves the homogeneous system of a matrix when its dot product with every
  row is zero. A matrix is uniform when its rows have the length of the first one.
\<close>

definition annihilated :: "matrix \<Rightarrow> rat list \<Rightarrow> bool" where
  "annihilated M x = list_all (\<lambda>r. dot r x = 0) M"

definition uniform :: "matrix \<Rightarrow> bool" where
  "uniform M = list_all (\<lambda>r. length r = cols M) M"

text \<open>
  What row reduction maintains when it has dealt with the columns before \<open>j\<close>: the
  finished rows carry a unit column at each pivot, the pivots are distinct and lie
  before \<open>j\<close>, and the remaining rows vanish before \<open>j\<close>.
\<close>

definition reduced :: "nat \<Rightarrow> nat \<Rightarrow> matrix \<Rightarrow> matrix \<Rightarrow> nat list \<Rightarrow> bool" where
  "reduced c j upper rest pivots \<longleftrightarrow>
     length upper = length pivots \<and>
     (\<forall>r \<in> set upper \<union> set rest. length r = c) \<and>
     distinct pivots \<and> (\<forall>p \<in> set pivots. p < j) \<and>
     (\<forall>k < length upper. \<forall>i < length pivots.
        upper ! k ! (pivots ! i) = (if k = i then 1 else 0)) \<and>
     (\<forall>r \<in> set rest. \<forall>col < j. r ! col = 0)"

text \<open>The columns without a pivot, and the nullspace vector of one of them.\<close>

definition free_columns :: "matrix \<Rightarrow> nat list" where
  "free_columns M = filter (\<lambda>i. i \<notin> set (snd (rref M))) [0..<cols M]"

definition kernel_vector :: "matrix \<Rightarrow> nat \<Rightarrow> rat list" where
  "kernel_vector M free = nullspace_vector (fst (rref M)) (snd (rref M)) (cols M) free"

text \<open>
  The factor of a projection, and what the Gram-Schmidt loop maintains for the vectors
  it has kept: they are nonzero, of one length, pairwise orthogonal and independent.
  Independence, span and dimension are those of the space of rational sequences, in
  which a list is the sequence of its entries followed by zeros.
\<close>

typedef qvec = "UNIV :: (nat \<Rightarrow> rat) set"
  by simp

setup_lifting type_definition_qvec

instantiation qvec :: ab_group_add
begin

lift_definition zero_qvec :: qvec is "\<lambda>_. 0" .
lift_definition plus_qvec :: "qvec \<Rightarrow> qvec \<Rightarrow> qvec" is "\<lambda>f g i. f i + g i" .
lift_definition uminus_qvec :: "qvec \<Rightarrow> qvec" is "\<lambda>f i. - f i" .
lift_definition minus_qvec :: "qvec \<Rightarrow> qvec \<Rightarrow> qvec" is "\<lambda>f g i. f i - g i" .

instance
  by standard (transfer; simp add: fun_eq_iff)+

end

lift_definition scaleq :: "rat \<Rightarrow> qvec \<Rightarrow> qvec" is "\<lambda>c f i. c * f i" .

lift_definition coord :: "qvec \<Rightarrow> nat \<Rightarrow> rat" is "\<lambda>f. f" .

lift_definition vec :: "rat list \<Rightarrow> qvec" is "\<lambda>xs i. if i < length xs then xs ! i else 0" .

abbreviation qspan :: "qvec set \<Rightarrow> qvec set" where
  "qspan \<equiv> module.span scaleq"

abbreviation qindependent :: "qvec set \<Rightarrow> bool" where
  "qindependent S \<equiv> \<not> module.dependent scaleq S"

abbreviation qdim :: "qvec set \<Rightarrow> nat" where
  "qdim \<equiv> vector_space.dim scaleq"

definition projection_coefficient :: "rat list \<Rightarrow> rat list \<Rightarrow> rat" where
  "projection_coefficient v b = dot v b / dot b b"

definition gs_invariant :: "nat \<Rightarrow> rat list list \<Rightarrow> bool" where
  "gs_invariant c ret \<longleftrightarrow>
     (\<forall>b \<in> set ret. length b = c \<and> \<not> is_zero_matrix b) \<and>
     distinct ret \<and>
     (\<forall>b \<in> set ret. \<forall>b' \<in> set ret. b \<noteq> b' \<longrightarrow> dot b b' = 0) \<and>
     qindependent (vec ` set ret) \<and> distinct (map vec ret)"


section \<open>Construction\<close>

lemma Framework_init_dim_arg_unused:
  "r \<noteq> [] \<Longrightarrow> Framework_init g r d = Framework_init g r d'"
  by (cases r) (simp_all add: Framework_init_def)

lemma Framework_init_dimension:
  "Framework_init g r d = Inr F \<Longrightarrow>
   dimension F = (case r of [] \<Rightarrow> d | (_, p) # _ \<Rightarrow> int (len p))"
  by (auto simp: Framework_init_def dimension_def Let_def split: option.splits)

text \<open>
  Claim C10. When the realization passed to the constructor is not empty, the \<open>dim\<close>
  argument has no influence on the result, and the dimension of a framework that is
  built is the length of the first vector of the realization; when the realization is
  empty, the dimension is the \<open>dim\<close> argument.
\<close>

theorem init_dimension_from_first_vector:
  "(r \<noteq> [] \<longrightarrow>
      Framework_init g r d = Framework_init g r d' \<and>
      (\<forall>F. Framework_init g r d = Inr F \<longrightarrow> dimension F = int (len (snd (hd r))))) \<and>
   (\<forall>F. Framework_init g [] d = Inr F \<longrightarrow> dimension F = d)"
proof (intro conjI impI allI)
  assume "r \<noteq> []"
  then show "Framework_init g r d = Framework_init g r d'"
    by (rule Framework_init_dim_arg_unused)
next
  fix F
  assume "r \<noteq> []" and "Framework_init g r d = Inr F"
  then show "dimension F = int (len (snd (hd r)))"
    by (cases r) (auto dest: Framework_init_dimension)
next
  fix F
  assume "Framework_init g [] d = Inr F"
  then show "dimension F = d"
    by (auto dest: Framework_init_dimension)
qed

theorem init_dimension_from_first_vector_witness:
  "[(0 :: vertex, PySeq [0, 0]), (1, PySeq [1, 0]), (2, PySeq [0, 1])] \<noteq> [] \<and>
   Framework_init (fw_graph triangle) [(0, PySeq [0, 0]), (1, PySeq [1, 0]), (2, PySeq [0, 1])] 7
     = Framework_init (fw_graph triangle) [(0, PySeq [0, 0]), (1, PySeq [1, 0]), (2, PySeq [0, 1])] 2 \<and>
   Framework_init (fw_graph triangle) [(0, PySeq [0, 0]), (1, PySeq [1, 0]), (2, PySeq [0, 1])] 7
     = Inr triangle \<and>
   dimension triangle = 2 \<and>
   Framework_init \<lparr>nodes = [], edges = []\<rparr> [] 3
     = Inr \<lparr>fw_graph = \<lparr>nodes = [], edges = []\<rparr>, fw_realization = [], fw_dim = 3\<rparr> \<and>
   dimension \<lparr>fw_graph = \<lparr>nodes = [], edges = []\<rparr>, fw_realization = [], fw_dim = 3\<rparr> = 3"
proof -
  let ?r = "[(0, PySeq [0, 0]), (1, PySeq [1, 0]), (2, PySeq [0, 1])]"
  have built: "Framework_init (fw_graph triangle) ?r 7 = Inr triangle"
    by code_simp
  have empty: "Framework_init \<lparr>nodes = [], edges = []\<rparr> [] 3
     = Inr \<lparr>fw_graph = \<lparr>nodes = [], edges = []\<rparr>, fw_realization = [], fw_dim = 3\<rparr>"
    by code_simp
  show ?thesis
    using init_dimension_from_first_vector [of ?r "fw_graph triangle" 7 2]
      init_dimension_from_first_vector [of ?r "\<lparr>nodes = [], edges = []\<rparr>" 3 3] built empty
    by (simp add: len_def)
qed

section \<open>The rows of the rigidity matrix\<close>

lemma collect_Inr:
  "(\<And>x. x \<in> set xs \<Longrightarrow> f x = Inr (g x)) \<Longrightarrow> collect f xs = Inr (map g xs)"
  by (induction xs) simp_all

lemma map_of_well_formed:
  assumes "well_formed F" and "v \<in> set (vertices (fw_graph F))"
  shows "\<exists>xs. map_of (fw_realization F) v = Some (PyMat xs) \<and> int (length xs) = fw_dim F"
proof -
  from assms obtain p where p: "map_of (fw_realization F) v = Some p"
    by (auto simp: well_formed_def framework_invariant_def list_all_iff)
  then have mem: "(v, p) \<in> set (fw_realization F)"
    by (rule map_of_SomeD)
  with assms have "is_matrix p" and "int (len p) = fw_dim F"
    by (auto simp: well_formed_def framework_invariant_def list_all_iff)
  then show ?thesis
    using p by (cases p) (simp_all add: len_def)
qed

lemma position_length:
  assumes "well_formed F" and "v \<in> set (vertices (fw_graph F))"
  shows "length (position F v) = nat (dimension F)"
  using map_of_well_formed [OF assms] by (auto simp: position_def dimension_def)

lemma block_well_formed:
  assumes wf: "well_formed F" and e: "e \<in> set (edges (fw_graph F))"
  shows "block F (fst e) (snd e) w = Inr (edge_block F e w)"
proof -
  from wf e have "fst e \<in> set (vertices (fw_graph F))" and "snd e \<in> set (vertices (fw_graph F))"
    by (auto simp: well_formed_def graph_ok_def list_all_iff vertices_def)
  from map_of_well_formed [OF wf this(1)] map_of_well_formed [OF wf this(2)]
  show ?thesis
    by (auto simp: block_def dict_get_def edge_block_def position_def)
qed

lemma edge_block_length:
  assumes wf: "well_formed F" and e: "e \<in> set (edges (fw_graph F))"
  shows "length (edge_block F e w) = nat (dimension F)"
proof -
  from wf e have "fst e \<in> set (vertices (fw_graph F))" and "snd e \<in> set (vertices (fw_graph F))"
    by (auto simp: well_formed_def graph_ok_def list_all_iff vertices_def)
  from position_length [OF wf this(1)] position_length [OF wf this(2)]
  show ?thesis
    by (simp add: edge_block_def)
qed

lemma matrix_row_well_formed:
  assumes wf: "well_formed F" and e: "e \<in> set (edges (fw_graph F))"
  shows "matrix_row F order e = Inr (edge_row F order e)"
proof -
  have "collect (block F (fst e) (snd e)) order = Inr (map (edge_block F e) order)"
    by (rule collect_Inr) (rule block_well_formed [OF wf e])
  then show ?thesis
    by (simp add: matrix_row_def edge_row_def)
qed

lemma concat_blocks_length:
  "(\<And>x. x \<in> set xs \<Longrightarrow> length (f x) = d) \<Longrightarrow> length (concat (map f xs)) = d * length xs"
  by (induction xs) simp_all

lemma concat_blocks_nth:
  "(\<And>x. x \<in> set xs \<Longrightarrow> length (f x) = d) \<Longrightarrow> i < length xs \<Longrightarrow>
   take d (drop (i * d) (concat (map f xs))) = f (xs ! i)"
proof (induction xs arbitrary: i)
  case Nil
  then show ?case by simp
next
  case (Cons x xs)
  show ?case
  proof (cases i)
    case 0
    with Cons.prems show ?thesis by simp
  next
    case (Suc k)
    with Cons.prems have k: "k < length xs" by simp
    have len: "length (f x) = d" using Cons.prems by simp
    have "drop (d + k * d) (f x @ concat (map f xs)) = drop (k * d) (concat (map f xs))"
      using len by simp
    then show ?thesis
      using Cons.IH [OF _ k] Cons.prems(1) Suc by (simp add: add.commute)
  qed
qed

lemma edge_row_length:
  assumes wf: "well_formed F" and e: "e \<in> set (edges (fw_graph F))"
  shows "length (edge_row F order e) = nat (dimension F) * length order"
  unfolding edge_row_def
  by (rule concat_blocks_length) (rule edge_block_length [OF wf e])

lemma Matrix_rows_uniform:
  assumes "\<And>r. r \<in> set rs \<Longrightarrow> length r = n"
  shows "Matrix_rows rs = Inr (filter (\<lambda>r. r \<noteq> []) rs)"
proof (cases "filter (\<lambda>r. r \<noteq> []) rs")
  case Nil
  then show ?thesis by (simp add: Matrix_rows_def)
next
  case (Cons r rest)
  have "set (r # rest) \<subseteq> set rs"
    unfolding Cons [symmetric] by auto
  with assms have "list_all (\<lambda>x. length x = length r) rest"
    by (auto simp: list_all_iff)
  with Cons show ?thesis by (simp add: Matrix_rows_def)
qed

lemma filter_nonempty_rows:
  assumes "\<And>r. r \<in> set rs \<Longrightarrow> length r = n"
  shows "filter (\<lambda>r. r \<noteq> []) rs = (if n = 0 then [] else rs)"
proof (cases "n = 0")
  case True
  with assms have "\<And>r. r \<in> set rs \<Longrightarrow> r = []" by auto
  with True show ?thesis by (simp add: filter_empty_conv)
next
  case False
  with assms have "\<And>r. r \<in> set rs \<Longrightarrow> r \<noteq> []" by auto
  with False show ?thesis by (simp add: filter_id_conv)
qed

lemma set_edge_order_of [simp]: "set (edge_order_of F b) = set (edges (fw_graph F))"
  by (simp add: edge_order_of_def)

lemma length_edge_order_of [simp]: "length (edge_order_of F b) = length (edges (fw_graph F))"
  by (simp add: edge_order_of_def)

lemma edge_rows_uniform:
  assumes "well_formed F" and "r \<in> set (map (edge_row F order) (edge_order_of F eo))"
  shows "length r = nat (dimension F) * length order"
  using assms by (auto simp: edge_row_length)

lemma rigidity_matrix_well_formed:
  assumes wf: "well_formed F" and order: "choose_vertex_order F vo = Inr order"
  shows "rigidity_matrix F vo eo =
     Inr (if nat (dimension F) * length order = 0 then []
          else map (edge_row F order) (edge_order_of F eo))"
proof -
  let ?es = "edge_order_of F eo"
  let ?rs = "map (edge_row F order) ?es"
  have rows: "collect (matrix_row F order) ?es = Inr ?rs"
    by (rule collect_Inr) (simp add: matrix_row_well_formed [OF wf])
  have "Matrix_rows ?rs = Inr (filter (\<lambda>r. r \<noteq> []) ?rs)"
    by (rule Matrix_rows_uniform) (rule edge_rows_uniform [OF wf])
  also have "filter (\<lambda>r. r \<noteq> []) ?rs
      = (if nat (dimension F) * length order = 0 then [] else ?rs)"
    by (rule filter_nonempty_rows) (rule edge_rows_uniform [OF wf])
  finally have "Matrix_rows ?rs
      = Inr (if nat (dimension F) * length order = 0 then [] else ?rs)" .
  with rows order show ?thesis
    by (cases eo) (simp_all add: rigidity_matrix_def py_sorted_def edge_order_of_def)
qed

lemma choose_vertex_order_default:
  "choose_vertex_order F None = Inr (sort (vertices (fw_graph F)))"
  by (simp add: choose_vertex_order_def py_sorted_def)


lemma choose_vertex_order_set:
  "choose_vertex_order F vo = Inr order \<Longrightarrow> set order = set (vertices (fw_graph F))"
  by (cases vo) (auto simp: choose_vertex_order_def py_sorted_def split: if_splits)

lemma scale_neg_diff:
  "map (\<lambda>x. - 1 * x) (map2 (-) a b) = map2 (-) b (a :: rat list)"
  by (induction a b rule: list_induct2') simp_all

lemma scale_zero_diff:
  "length a = d \<Longrightarrow> length b = d \<Longrightarrow>
   map (\<lambda>x. 0 * x) (map2 (-) a (b :: rat list)) = replicate d 0"
  by (induction a b arbitrary: d rule: list_induct2') auto

lemma edge_block_cases:
  assumes "length (position F (fst e)) = d" and "length (position F (snd e)) = d"
  shows "edge_block F e w =
     (if w = fst e then map2 (-) (position F (fst e)) (position F (snd e))
      else if w = snd e then map2 (-) (position F (snd e)) (position F (fst e))
      else replicate d 0)"
proof -
  let ?diff = "map2 (-) (position F (fst e)) (position F (snd e))"
  consider (first) "w = fst e" | (second) "w \<noteq> fst e" "w = snd e"
    | (other) "w \<noteq> fst e" "w \<noteq> snd e"
    by blast
  then show ?thesis
  proof cases
    case first
    then show ?thesis by (simp add: edge_block_def delta_def)
  next
    case second
    then have "edge_block F e w = map (\<lambda>x. - 1 * x) ?diff"
      unfolding edge_block_def delta_def by simp
    also have "\<dots> = map2 (-) (position F (snd e)) (position F (fst e))"
      by (rule scale_neg_diff)
    finally show ?thesis using second by simp
  next
    case other
    then have "edge_block F e w = map (\<lambda>x. 0 * x) ?diff"
      unfolding edge_block_def delta_def by simp
    also have "\<dots> = replicate d 0"
      by (rule scale_zero_diff [OF assms])
    finally show ?thesis using other by simp
  qed
qed

lemma cols_map_rows:
  "es \<noteq> [] \<Longrightarrow> cols (map f es) = length (f (hd es))"
  by (cases es) (simp_all add: cols_def)

section \<open>Infinitesimal rigidity\<close>

lemma triangular_exact: "2 * ((d * (d + 1)) div 2) = d * (d + 1)" for d :: int
  by (rule dvd_mult_div_cancel) simp

text \<open>
  Claim C2. When the rigidity matrix \<open>M\<close> of the framework can be built (as it can for
  every well-formed framework, see \<open>rigidity_matrix_well_formed\<close>),
  \<open>is_infinitesimally_rigid\<close> returns true exactly when the graph has at most one vertex
  or the rank of \<open>M\<close> is \<open>dim * |V| - dim * (dim + 1) / 2\<close>, and
  \<open>is_infinitesimally_flexible\<close> returns the negation. The integer division by two is
  exact.
\<close>

theorem infinitesimally_rigid_iff_rank:
  assumes "rigidity_matrix F None True = Inr M"
  shows "is_infinitesimally_rigid F =
           Inr (length (vertices (fw_graph F)) \<le> 1 \<or>
                int (rank M) =
                  dimension F * int (length (vertices (fw_graph F)))
                  - (dimension F * (dimension F + 1)) div 2) \<and>
         is_infinitesimally_flexible F =
           Inr (\<not> (length (vertices (fw_graph F)) \<le> 1 \<or>
                   int (rank M) =
                     dimension F * int (length (vertices (fw_graph F)))
                     - (dimension F * (dimension F + 1)) div 2)) \<and>
         2 * ((dimension F * (dimension F + 1)) div 2) = dimension F * (dimension F + 1)"
  using assms
  by (simp add: is_infinitesimally_rigid_def is_infinitesimally_flexible_def
      rigidity_matrix_rank_def triangular_exact)

theorem infinitesimally_rigid_iff_rank_witness:
  "rigidity_matrix triangle None True
     = Inr [[- 1, 0, 1, 0, 0, 0], [0, - 1, 0, 0, 0, 1], [0, 0, 1, - 1, - 1, 1]] \<and>
   rank [[- 1, 0, 1, 0, 0, 0], [0, - 1, 0, 0, 0, 1], [0, 0, 1, - 1, - 1, 1]] = 3 \<and>
   is_infinitesimally_rigid triangle = Inr True \<and>
   is_infinitesimally_flexible triangle = Inr False"
proof -
  let ?M = "[[- 1, 0, 1, 0, 0, 0], [0, - 1, 0, 0, 0, 1], [0, 0, 1, - 1, - 1, 1]] :: matrix"
  have built: "rigidity_matrix triangle None True = Inr ?M"
    by code_simp
  have rk: "rank ?M = 3"
    by code_simp
  have shape: "length (vertices (fw_graph triangle)) = 3" "dimension triangle = 2"
    by (simp_all add: triangle_def vertices_def dimension_def)
  show ?thesis
    using infinitesimally_rigid_iff_rank [OF built] built rk shape by simp
qed

section \<open>The shape of the rigidity matrix\<close>

lemma valid_order_length:
  assumes "choose_vertex_order F vo = Inr order" and "distinct order"
    and "distinct (vertices (fw_graph F))"
  shows "length order = length (vertices (fw_graph F))"
proof -
  have "set order = set (vertices (fw_graph F))"
    using assms(1) by (rule choose_vertex_order_set)
  then have "card (set order) = card (set (vertices (fw_graph F)))"
    by simp
  then show ?thesis
    using assms(2,3) by (simp add: distinct_card)
qed

text \<open>
  Claim C3, as amended. For a well-formed framework of positive dimension and a vertex
  order that names every vertex once (the sorted default, or a supplied list that
  passes the assertion and has no repetition), \<open>rigidity_matrix\<close> returns a matrix
  with one row per edge; every row
  has \<open>dim * |V|\<close> entries, so that the matrix has \<open>dim * |V|\<close> columns as soon as the
  graph has an edge; and in the row of the edge \<open>(u, v)\<close> the block of the vertex at
  position \<open>i\<close> of the order is \<open>p u - p v\<close> if that vertex is \<open>u\<close>, \<open>p v - p u\<close> if it
  is \<open>v\<close>, and zero otherwise.
\<close>

theorem rigidity_matrix_rows_and_blocks:
  assumes wf: "well_formed F"
    and dim: "0 < dimension F"
    and order: "choose_vertex_order F vertex_order = Inr order"
    and dist: "distinct order"
  shows "\<exists>M. rigidity_matrix F vertex_order edges_ordered = Inr M \<and>
      rows M = length (edges (fw_graph F)) \<and>
      (edges (fw_graph F) \<noteq> [] \<longrightarrow>
         cols M = nat (dimension F) * length (vertices (fw_graph F))) \<and>
      (\<forall>k < rows M.
         length (M ! k) = nat (dimension F) * length (vertices (fw_graph F)) \<and>
         (\<forall>i < length order.
            take (nat (dimension F)) (drop (i * nat (dimension F)) (M ! k)) =
              (if order ! i = fst (edge_order_of F edges_ordered ! k)
               then map2 (-) (position F (fst (edge_order_of F edges_ordered ! k)))
                      (position F (snd (edge_order_of F edges_ordered ! k)))
               else if order ! i = snd (edge_order_of F edges_ordered ! k)
               then map2 (-) (position F (snd (edge_order_of F edges_ordered ! k)))
                      (position F (fst (edge_order_of F edges_ordered ! k)))
               else replicate (nat (dimension F)) 0)))"
proof -
  let ?d = "nat (dimension F)"
  let ?es = "edge_order_of F edges_ordered"
  let ?M = "map (edge_row F order) ?es"
  have nodes: "distinct (vertices (fw_graph F))"
    using wf by (simp add: well_formed_def graph_ok_def vertices_def)
  have len: "length order = length (vertices (fw_graph F))"
    by (rule valid_order_length [OF order dist nodes])
  have member: "?es ! k \<in> set (edges (fw_graph F))" if "k < length ?es" for k
    using that nth_mem [of k ?es] by simp
  have endpoints: "fst e \<in> set (vertices (fw_graph F))" "snd e \<in> set (vertices (fw_graph F))"
    if "e \<in> set (edges (fw_graph F))" for e
    using wf that by (auto simp: well_formed_def graph_ok_def list_all_iff vertices_def)
  have built: "rigidity_matrix F vertex_order edges_ordered = Inr ?M"
  proof (cases "?es = []")
    case True
    then show ?thesis
      using rigidity_matrix_well_formed [OF wf order, of edges_ordered] by simp
  next
    case False
    then have "0 < length ?es" by (metis length_greater_0_conv)
    from endpoints(1) [OF member [OF this]] have "set order \<noteq> {}"
      using choose_vertex_order_set [OF order] by auto
    then have "order \<noteq> []" by auto
    with dim show ?thesis
      using rigidity_matrix_well_formed [OF wf order, of edges_ordered] by simp
  qed
  have row_len: "length (?M ! k) = ?d * length (vertices (fw_graph F))" if "k < length ?es" for k
    using that edge_row_length [OF wf member [OF that]] len by simp
  have blocks: "take ?d (drop (i * ?d) (?M ! k)) =
      (if order ! i = fst (?es ! k)
       then map2 (-) (position F (fst (?es ! k))) (position F (snd (?es ! k)))
       else if order ! i = snd (?es ! k)
       then map2 (-) (position F (snd (?es ! k))) (position F (fst (?es ! k)))
       else replicate ?d 0)"
    if k: "k < length ?es" and i: "i < length order" for k i
  proof -
    let ?e = "?es ! k"
    have e: "?e \<in> set (edges (fw_graph F))"
      by (rule member [OF k])
    have "take ?d (drop (i * ?d) (concat (map (edge_block F ?e) order)))
        = edge_block F ?e (order ! i)"
      by (rule concat_blocks_nth [OF _ i]) (rule edge_block_length [OF wf e])
    moreover have "length (position F (fst ?e)) = ?d" "length (position F (snd ?e)) = ?d"
      using endpoints [OF e] by (simp_all add: position_length [OF wf])
    ultimately show ?thesis
      using k by (simp add: edge_row_def edge_block_cases)
  qed
  have columns: "cols ?M = ?d * length (vertices (fw_graph F))" if "edges (fw_graph F) \<noteq> []"
  proof -
    from that have pos: "0 < length ?es"
      by simp
    then have ne: "?es \<noteq> []"
      by (metis length_greater_0_conv)
    have "?M ! 0 = edge_row F order (?es ! 0)"
      by (rule nth_map [OF pos])
    with row_len [OF pos] ne show ?thesis
      by (simp add: cols_map_rows hd_conv_nth)
  qed
  have "rows ?M = length (edges (fw_graph F))"
    by (simp add: rows_def)
  moreover have "edges (fw_graph F) \<noteq> [] \<longrightarrow>
      cols ?M = ?d * length (vertices (fw_graph F))"
    using columns by blast
  moreover have "\<forall>k < rows ?M.
      length (?M ! k) = ?d * length (vertices (fw_graph F)) \<and>
      (\<forall>i < length order.
         take ?d (drop (i * ?d) (?M ! k)) =
           (if order ! i = fst (?es ! k)
            then map2 (-) (position F (fst (?es ! k))) (position F (snd (?es ! k)))
            else if order ! i = snd (?es ! k)
            then map2 (-) (position F (snd (?es ! k))) (position F (fst (?es ! k)))
            else replicate ?d 0))"
    using row_len blocks unfolding rows_def length_map by blast
  ultimately show ?thesis
    using built by blast
qed

theorem rigidity_matrix_rows_and_blocks_witness:
  "well_formed triangle \<and>
   0 < dimension triangle \<and>
   choose_vertex_order triangle (Some [2, 0, 1]) = Inr [2, 0, 1] \<and>
   distinct [2, 0, 1 :: int] \<and>
   rigidity_matrix triangle (Some [2, 0, 1]) True
     = Inr [[0, 0, - 1, 0, 1, 0], [0, 1, 0, - 1, 0, 0], [- 1, 1, 0, 0, 1, - 1]] \<and>
   rows [[0, 0, - 1, 0, 1, 0], [0, 1, 0, - 1, 0, 0], [- 1, 1, 0, 0, 1, - 1 :: rat]] = 3 \<and>
   cols [[0, 0, - 1, 0, 1, 0], [0, 1, 0, - 1, 0, 0], [- 1, 1, 0, 0, 1, - 1 :: rat]] = 6"
proof -
  have wf: "well_formed triangle"
    by code_simp
  have order: "choose_vertex_order triangle (Some [2, 0, 1]) = Inr [2, 0, 1]"
    by code_simp
  have dist: "distinct [2, 0, 1 :: int]"
    by simp
  have built: "rigidity_matrix triangle (Some [2, 0, 1]) True
     = Inr [[0, 0, - 1, 0, 1, 0], [0, 1, 0, - 1, 0, 0], [- 1, 1, 0, 0, 1, - 1]]"
    by code_simp
  have shape: "edges (fw_graph triangle) \<noteq> []" "length (edges (fw_graph triangle)) = 3"
    "dimension triangle = 2" "length (vertices (fw_graph triangle)) = 3"
    by (simp_all add: triangle_def dimension_def vertices_def)
  have dim: "0 < dimension triangle"
    by (simp add: triangle_def dimension_def)
  from rigidity_matrix_rows_and_blocks [OF wf dim order dist, of True] built shape
  have "rows [[0, 0, - 1, 0, 1, 0], [0, 1, 0, - 1, 0, 0], [- 1, 1, 0, 0, 1, - 1 :: rat]] = 3"
    and "cols [[0, 0, - 1, 0, 1, 0], [0, 1, 0, - 1, 0, 0], [- 1, 1, 0, 0, 1, - 1 :: rat]] = 6"
    by auto
  with wf dim order dist built show ?thesis
    by blast
qed

text \<open>
  The claim as stated fails in three ways. A framework without edges has the
  \<open>0 \<times> 0\<close> matrix, whatever its dimension and its vertices; a vertex order that
  repeats a vertex passes the assertion and yields \<open>dim\<close> columns for every
  repetition; and in dimension zero every row is empty, so that the matrix has no row
  at all.
\<close>

theorem rigidity_matrix_columns_counterexample:
  "Framework_init \<lparr>nodes = [0, 1], edges = []\<rparr> [(0, PySeq [0, 0]), (1, PySeq [1, 0])] 2
     = Inr two_points \<and>
   rigidity_matrix two_points (Some [0, 1]) True = Inr [] \<and>
   cols ([] :: matrix) = 0 \<and>
   dimension two_points * int (length (vertices (fw_graph two_points))) = 4 \<and>
   rigidity_matrix triangle (Some [0, 1, 2, 2]) True
     = Inr [[- 1, 0, 1, 0, 0, 0, 0, 0], [0, - 1, 0, 0, 0, 1, 0, 1],
            [0, 0, 1, - 1, - 1, 1, - 1, 1]] \<and>
   cols [[- 1, 0, 1, 0, 0, 0, 0, 0], [0, - 1, 0, 0, 0, 1, 0, 1],
         [0, 0, 1, - 1, - 1, 1, - 1, 1 :: rat]] = 8 \<and>
   dimension triangle * int (length (vertices (fw_graph triangle))) = 6 \<and>
   Framework_init \<lparr>nodes = [0, 1], edges = [(0, 1)]\<rparr> [(0, PySeq []), (1, PySeq [])] 2
     = Inr zero_dim_edge \<and>
   rigidity_matrix zero_dim_edge (Some [0, 1]) True = Inr [] \<and>
   rows ([] :: matrix) = 0 \<and>
   length (edges (fw_graph zero_dim_edge)) = 1"
proof -
  have "Framework_init \<lparr>nodes = [0, 1], edges = [(0, 1)]\<rparr> [(0, PySeq []), (1, PySeq [])] 2
     = Inr zero_dim_edge"
    by code_simp
  moreover have "rigidity_matrix zero_dim_edge (Some [0, 1]) True = Inr []"
    by code_simp
  moreover
  have "Framework_init \<lparr>nodes = [0, 1], edges = []\<rparr> [(0, PySeq [0, 0]), (1, PySeq [1, 0])] 2
     = Inr two_points"
    by code_simp
  moreover have "rigidity_matrix two_points (Some [0, 1]) True = Inr []"
    by code_simp
  moreover have "rigidity_matrix triangle (Some [0, 1, 2, 2]) True
     = Inr [[- 1, 0, 1, 0, 0, 0, 0, 0], [0, - 1, 0, 0, 0, 1, 0, 1],
            [0, 0, 1, - 1, - 1, 1, - 1, 1]]"
    by code_simp
  ultimately show ?thesis
    by (simp add: cols_def rows_def two_points_def triangle_def zero_dim_edge_def
        dimension_def vertices_def)
qed

section \<open>Edge-deletion trials run on copies\<close>

lemma delete_edge_member:
  assumes "e \<in> set (edges (fw_graph F))"
  shows "delete_edge F e =
    (None, F\<lparr>fw_graph := (fw_graph F)\<lparr>edges :=
       filter (\<lambda>x. x \<noteq> e \<and> x \<noteq> (snd e, fst e)) (edges (fw_graph F))\<rparr>\<rparr>)"
  using assms by (simp add: delete_edge_def graph_delete_edge_def has_edge_def)

lemma without_edge_well_formed:
  assumes "well_formed F" and "e \<in> set (edges (fw_graph F))"
  shows "well_formed (without_edge F e)"
  using assms
  by (auto simp: without_edge_def delete_edge_member well_formed_def framework_invariant_def
      graph_ok_def vertices_def list_all_iff)

lemma well_formed_rigid_total:
  assumes "well_formed F"
  shows "is_infinitesimally_rigid F = Inr (rigid F)"
proof -
  have "\<exists>M. rigidity_matrix F None True = Inr M"
    using rigidity_matrix_well_formed [OF assms choose_vertex_order_default] by blast
  then show ?thesis
    by (auto simp: rigid_def is_infinitesimally_rigid_def rigidity_matrix_rank_def)
qed

lemma well_formed_flexible_iff:
  assumes "well_formed F"
  shows "flexible F \<longleftrightarrow> \<not> rigid F"
  using well_formed_rigid_total [OF assms]
  by (simp add: flexible_def is_infinitesimally_flexible_def)

text \<open>The edges that the loop tries: up to and including the first whose removal keeps
  the framework rigid.\<close>

lemma minimally_rigid_trials_run:
  assumes "self < length h" and "well_formed (h ! self)"
    and "set es \<subseteq> set (edges (fw_graph (h ! self)))"
  shows "minimally_rigid_trials h self es =
     (h @ map (without_edge (h ! self)) (tried_edges (h ! self) es),
      Inr (list_all (\<lambda>e. flexible (without_edge (h ! self) e)) es))"
  using assms
proof (induction es arbitrary: h)
  case Nil
  then show ?case by simp
next
  case (Cons e es)
  let ?F = "h ! self"
  let ?F' = "without_edge ?F e"
  let ?h2 = "h @ [?F']"
  have e: "e \<in> set (edges (fw_graph ?F))"
    using Cons.prems by simp
  have del: "delete_edge ?F e = (None, ?F')"
    using delete_edge_member [OF e] by (simp add: without_edge_def)
  have wf': "well_formed ?F'"
    by (rule without_edge_well_formed [OF Cons.prems(2) e])
  have rig: "is_infinitesimally_rigid ?F' = Inr (rigid ?F')"
    by (rule well_formed_rigid_total [OF wf'])
  have flex: "flexible ?F' \<longleftrightarrow> \<not> rigid ?F'"
    by (rule well_formed_flexible_iff [OF wf'])
  have self2: "?h2 ! self = ?F"
    using Cons.prems(1) by (simp add: nth_append)
  have step: "minimally_rigid_trials h self (e # es) =
      (if rigid ?F' then (?h2, Inr False) else minimally_rigid_trials ?h2 self es)"
    using Cons.prems(1) del rig
    by (simp add: deepcopy_def call_no_args_def nth_append)
  show ?case
  proof (cases "rigid ?F'")
    case True
    then show ?thesis
      using step flex by simp
  next
    case False
    have "minimally_rigid_trials ?h2 self es =
       (?h2 @ map (without_edge (?h2 ! self)) (tried_edges (?h2 ! self) es),
        Inr (list_all (\<lambda>e. flexible (without_edge (?h2 ! self) e)) es))"
      using Cons.prems by (intro Cons.IH) (simp_all add: nth_append)
    then show ?thesis
      using step False flex self2 by simp
  qed
qed

text \<open>
  Claim C5. For a well-formed framework at address \<open>self\<close> of the store,
  \<open>is_minimally_infinitesimally_rigid\<close> returns true exactly when the framework is
  infinitesimally rigid and deleting any one edge leaves it infinitesimally flexible.
  Every trial works on a fresh copy: the store it leaves is the old store, unchanged,
  followed by the copies, one for each tried edge, and no edge is tried after the
  first one whose removal keeps the framework rigid.
\<close>

theorem minimally_rigid_iff_every_deletion_flexible:
  assumes "self < length h" and "well_formed (h ! self)"
  shows "is_minimally_infinitesimally_rigid h self =
     (h @ map (without_edge (h ! self))
            (if rigid (h ! self) then tried_edges (h ! self) (edges (fw_graph (h ! self)))
             else []),
      Inr (rigid (h ! self) \<and>
           list_all (\<lambda>e. flexible (without_edge (h ! self) e))
             (edges (fw_graph (h ! self)))))"
proof (cases "rigid (h ! self)")
  case True
  then show ?thesis
    using minimally_rigid_trials_run [OF assms subset_refl]
      well_formed_rigid_total [OF assms(2)]
    by (simp add: is_minimally_infinitesimally_rigid_def)
next
  case False
  then show ?thesis
    using well_formed_rigid_total [OF assms(2)]
    by (simp add: is_minimally_infinitesimally_rigid_def)
qed

lemma braced_square_well_formed: "well_formed braced_square"
  by code_simp

lemma braced_square_rigid: "rigid braced_square"
  unfolding rigid_def by code_simp

lemma braced_square_without_rigid: "rigid (without_edge braced_square (0, 1))"
  unfolding rigid_def by code_simp

lemma triangle_well_formed: "well_formed triangle"
  by code_simp

lemma triangle_rigid: "rigid triangle"
  unfolding rigid_def by code_simp

lemma triangle_without_flexible:
  "flexible (without_edge triangle (0, 1))"
  "flexible (without_edge triangle (0, 2))"
  "flexible (without_edge triangle (1, 2))"
  unfolding flexible_def by code_simp+

theorem minimally_rigid_iff_every_deletion_flexible_witness:
  "(0 :: nat) < length [braced_square] \<and> well_formed ([braced_square] ! 0) \<and>
   is_minimally_infinitesimally_rigid [braced_square] 0
     = ([braced_square, without_edge braced_square (0, 1)], Inr False) \<and>
   (0 :: nat) < length [triangle] \<and> well_formed ([triangle] ! 0) \<and>
   is_minimally_infinitesimally_rigid [triangle] 0
     = ([triangle, without_edge triangle (0, 1), without_edge triangle (0, 2),
         without_edge triangle (1, 2)], Inr True)"
proof -
  have len: "(0 :: nat) < length [braced_square]" "(0 :: nat) < length [triangle]"
    by simp_all
  have wf: "well_formed ([braced_square] ! 0)" "well_formed ([triangle] ! 0)"
    by (simp_all add: braced_square_well_formed triangle_well_formed)
  have sq: "edges (fw_graph braced_square) = [(0, 1), (0, 2), (0, 3), (1, 2), (1, 3), (2, 3)]"
    by (simp add: braced_square_def)
  have tr: "edges (fw_graph triangle) = [(0, 1), (0, 2), (1, 2)]"
    by (simp add: triangle_def)
  have not_rigid: "\<not> rigid (without_edge triangle e)"
    if "e \<in> set [(0, 1), (0, 2), (1, 2)]" for e
    using that triangle_without_flexible
      well_formed_flexible_iff [OF without_edge_well_formed [OF triangle_well_formed, of e]]
    by (auto simp: tr)
  have "is_minimally_infinitesimally_rigid [braced_square] 0
     = ([braced_square, without_edge braced_square (0, 1)], Inr False)"
    using minimally_rigid_iff_every_deletion_flexible [OF len(1) wf(1)]
      braced_square_rigid braced_square_without_rigid sq
      well_formed_flexible_iff [OF without_edge_well_formed [OF braced_square_well_formed,
        of "(0, 1)"]]
    by simp
  moreover have "is_minimally_infinitesimally_rigid [triangle] 0
     = ([triangle, without_edge triangle (0, 1), without_edge triangle (0, 2),
         without_edge triangle (1, 2)], Inr True)"
    using minimally_rigid_iff_every_deletion_flexible [OF len(2) wf(2)]
      triangle_rigid triangle_without_flexible not_rigid tr
    by simp
  ultimately show ?thesis
    using len wf by blast
qed

section \<open>The redundant rigidity check\<close>

lemma redundantly_rigid_trials_raise:
  assumes "self < length h" and "e \<in> set (edges (fw_graph (h ! self)))"
  shows "redundantly_rigid_trials h self (e # es)
     = (h @ [without_edge (h ! self) e], Inl TypeError)"
proof -
  have "delete_edge (h ! self) e = (None, without_edge (h ! self) e)"
    using delete_edge_member [OF assms(2)] by (simp add: without_edge_def)
  then show ?thesis
    using assms(1) by (simp add: deepcopy_def call_no_args_def nth_append)
qed

lemma is_redundantly_rigid_result:
  assumes "self < length h"
  shows "is_redundantly_rigid h self =
     (case edges (fw_graph (h ! self)) of
        [] \<Rightarrow> (h, Inr True)
      | e # es \<Rightarrow> (h @ [without_edge (h ! self) e], Inl TypeError))"
proof (cases "edges (fw_graph (h ! self))")
  case Nil
  then show ?thesis by (simp add: is_redundantly_rigid_def)
next
  case (Cons e es)
  then have "e \<in> set (edges (fw_graph (h ! self)))" by simp
  from redundantly_rigid_trials_raise [OF assms this] Cons show ?thesis
    by (simp add: is_redundantly_rigid_def)
qed

text \<open>
  Claim C1. The triangle is rigid and loses its rigidity with any one of its edges, so
  the claim asks for the answer false. The call stops in the first trial instead: the
  rigidity check of the copy is called with the copy as an extra argument, which is a
  \<open>TypeError\<close>. The original is not touched.
\<close>

theorem is_redundantly_rigid_raises_on_triangle:
  "is_redundantly_rigid [triangle] 0
     = ([triangle, without_edge triangle (0, 1)], Inl TypeError) \<and>
   rigid triangle \<and> flexible (without_edge triangle (0, 1))"
proof -
  have "is_redundantly_rigid [triangle] 0
     = ([triangle, without_edge triangle (0, 1)], Inl TypeError)"
    using is_redundantly_rigid_result [of 0 "[triangle]"] by (simp add: triangle_def)
  then show ?thesis
    using triangle_rigid triangle_without_flexible(1) by simp
qed

section \<open>Mutation and the invariant\<close>

lemma set_update_subset:
  "set (AList.update k v al) \<subseteq> insert (k, v) (set al)"
  by (induction al) auto

lemma change_vertex_coordinates_invariant:
  assumes "framework_invariant F" and "change_vertex_coordinates F v p = (None, F')"
  shows "framework_invariant F'"
proof -
  from assms(2) have known: "map_of (fw_realization F) v \<noteq> None"
    and len: "int (len p) = fw_dim F"
    and F': "F' = F\<lparr>fw_realization := AList.update v p (fw_realization F)\<rparr>"
    by (auto simp: change_vertex_coordinates_def split: if_splits)
  have "set (AList.update v p (fw_realization F)) \<subseteq> insert (v, p) (set (fw_realization F))"
    by (rule set_update_subset)
  then have "list_all (\<lambda>kp. int (len (snd kp)) = fw_dim F) (AList.update v p (fw_realization F))"
    using assms(1) len by (auto simp: framework_invariant_def list_all_iff)
  then show ?thesis
    using assms(1) unfolding F'
    by (auto simp: framework_invariant_def list_all_iff distinct_update update_conv')
qed

lemma change_vertex_coordinates_checks_length:
  "int (len p) \<noteq> fw_dim F \<Longrightarrow> fst (change_vertex_coordinates F v p) = Some AssertionError"
  by (simp add: change_vertex_coordinates_def)

lemma map_of_delete_other:
  "k \<noteq> v \<Longrightarrow> map_of (AList.delete v al) k = map_of al k"
  by (simp add: delete_conv')

lemma delete_vertex_invariant:
  assumes inv: "framework_invariant F" and ok: "delete_vertex F v = (None, F')"
  shows "framework_invariant F' \<and>
         vertices (fw_graph F') = removeAll v (vertices (fw_graph F)) \<and>
         edges (fw_graph F') = filter (\<lambda>e. fst e \<noteq> v \<and> snd e \<noteq> v) (edges (fw_graph F)) \<and>
         map_of (fw_realization F') v = None"
proof -
  from ok have mem: "v \<in> set (nodes (fw_graph F))"
    and F': "F' = F\<lparr>fw_graph := \<lparr>nodes = removeAll v (nodes (fw_graph F)),
                edges = filter (\<lambda>x. fst x \<noteq> v \<and> snd x \<noteq> v) (edges (fw_graph F))\<rparr>,
              fw_realization := AList.delete v (fw_realization F)\<rparr>"
    by (auto simp: delete_vertex_def graph_delete_vertex_def Let_def split: if_splits)
  have keys: "distinct (map fst (fw_realization F'))"
    unfolding F' using inv by (simp add: framework_invariant_def distinct_delete)
  have entries: "list_all (\<lambda>k. map_of (fw_realization F') k \<noteq> None) (vertices (fw_graph F'))"
    unfolding list_all_iff
  proof
    fix k
    assume "k \<in> set (vertices (fw_graph F'))"
    then have "k \<in> set (vertices (fw_graph F))" and "k \<noteq> v"
      unfolding F' by (simp_all add: vertices_def)
    with inv have "map_of (fw_realization F) k \<noteq> None"
      unfolding framework_invariant_def list_all_iff by blast
    moreover have "map_of (fw_realization F') k = map_of (fw_realization F) k"
      unfolding F' using \<open>k \<noteq> v\<close> by (simp add: delete_conv')
    ultimately show "map_of (fw_realization F') k \<noteq> None"
      by metis
  qed
  have "set (AList.delete v (fw_realization F)) \<subseteq> set (fw_realization F)"
    by (auto simp: AList.delete_eq)
  then have lens: "list_all (\<lambda>kp. int (len (snd kp)) = fw_dim F') (fw_realization F')"
    unfolding F' using inv by (auto simp: framework_invariant_def list_all_iff)
  from keys entries lens have "framework_invariant F'"
    by (simp add: framework_invariant_def)
  then show ?thesis
    unfolding F' by (simp add: vertices_def delete_conv')
qed

lemma update_each_invariant:
  assumes "framework_invariant F" and "update_each indexable F kps = (None, F')"
  shows "framework_invariant F'"
  using assms
proof (induction kps arbitrary: F)
  case Nil
  then show ?case by simp
next
  case (Cons kp kps)
  obtain v p where kp: "kp = (v, p)" by (cases kp)
  from Cons.prems(2) obtain F1 where step: "change_vertex_coordinates F v p = (None, F1)"
    and rest: "update_each indexable F1 kps = (None, F')"
    unfolding kp by (auto split: if_splits prod.splits option.splits)
  from change_vertex_coordinates_invariant [OF Cons.prems(1) step] rest show ?case
    by (rule Cons.IH)
qed

text \<open>
  Claim C6. The coordinate setters assert the length of a new vector and keep the
  invariant, and \<open>delete_vertex\<close> keeps it while removing the entry of the vertex and
  its incident edges; \<open>add_vertex\<close> does not look at the length. On the framework that
  \<open>Framework()\<close> builds, of dimension 2, adding a vertex with three coordinates
  succeeds, and the result violates the invariant.
\<close>

theorem add_vertex_accepts_wrong_length:
  "Framework_init \<lparr>nodes = [], edges = []\<rparr> [] 2 = Inr empty_framework \<and>
   framework_invariant empty_framework \<and>
   add_vertex empty_framework (PySeq [1, 2, 3]) None
     = (None, \<lparr>fw_graph = \<lparr>nodes = [0], edges = []\<rparr>,
               fw_realization = [(0, PyMat [1, 2, 3])], fw_dim = 2\<rparr>) \<and>
   \<not> framework_invariant
       \<lparr>fw_graph = \<lparr>nodes = [0], edges = []\<rparr>,
        fw_realization = [(0, PyMat [1, 2, 3])], fw_dim = 2\<rparr>"
proof -
  have "Framework_init \<lparr>nodes = [], edges = []\<rparr> [] 2 = Inr empty_framework"
    by code_simp
  moreover have "framework_invariant empty_framework"
    by code_simp
  moreover have "add_vertex empty_framework (PySeq [1, 2, 3]) None
     = (None, \<lparr>fw_graph = \<lparr>nodes = [0], edges = []\<rparr>,
               fw_realization = [(0, PyMat [1, 2, 3])], fw_dim = 2\<rparr>)"
    by code_simp
  moreover have "\<not> framework_invariant
       \<lparr>fw_graph = \<lparr>nodes = [0], edges = []\<rparr>,
        fw_realization = [(0, PyMat [1, 2, 3])], fw_dim = 2\<rparr>"
    by code_simp
  ultimately show ?thesis
    by blast
qed

lemma first_unused_least:
  "c \<le> first_unused vs c \<and> first_unused vs c \<notin> set vs \<and>
   (\<forall>k. c \<le> k \<and> k < first_unused vs c \<longrightarrow> k \<in> set vs)"
proof (induction vs c rule: first_unused.induct)
  case (1 vs c)
  show ?case
  proof (cases "c \<in> set vs")
    case True
    have eq: "first_unused vs c = first_unused vs (c + 1)"
      using True by (subst first_unused.simps) simp
    have "k \<in> set vs" if "c \<le> k" and "k < first_unused vs (c + 1)" for k
    proof (cases "k = c")
      case True
      with \<open>c \<in> set vs\<close> show ?thesis by simp
    next
      case False
      with that have "c + 1 \<le> k" by simp
      with 1 [OF True] that show ?thesis by blast
    qed
    with 1 [OF True] show ?thesis
      unfolding eq by auto
  next
    case False
    then have "first_unused vs c = c"
      by (subst first_unused.simps) simp
    with False show ?thesis by auto
  qed
qed

text \<open>
  Claim C7, as amended. Without a name, \<open>add_vertex\<close> always succeeds and appends a
  vertex whose label is the smallest integer from \<open>|V|\<close> on that is not yet a label:
  the search starts at the number of vertices, not at zero.
\<close>

theorem add_vertex_unnamed_label:
  "\<exists>c. add_vertex F p None
        = (None, F\<lparr>fw_realization := AList.update c (Matrix p) (fw_realization F),
                   fw_graph := (fw_graph F)\<lparr>nodes := nodes (fw_graph F) @ [c]\<rparr>\<rparr>) \<and>
       int (length (vertices (fw_graph F))) \<le> c \<and>
       c \<notin> set (vertices (fw_graph F)) \<and>
       (\<forall>k. int (length (vertices (fw_graph F))) \<le> k \<and> k < c
            \<longrightarrow> k \<in> set (vertices (fw_graph F)))"
proof -
  let ?vs = "vertices (fw_graph F)"
  let ?c = "first_unused ?vs (int (length ?vs))"
  have fresh: "?c \<notin> set ?vs"
    using first_unused_least [of "int (length ?vs)" ?vs] by blast
  then have "add_vertex F p None
        = (None, F\<lparr>fw_realization := AList.update ?c (Matrix p) (fw_realization F),
                   fw_graph := (fw_graph F)\<lparr>nodes := nodes (fw_graph F) @ [?c]\<rparr>\<rparr>)"
    by (simp add: add_vertex_def add_node_def vertices_def Let_def)
  with first_unused_least [of "int (length ?vs)" ?vs] show ?thesis
    by blast
qed

theorem add_vertex_unnamed_label_witness:
  "add_vertex gap_framework (PySeq [1, 1]) None
     = (None, \<lparr>fw_graph = \<lparr>nodes = [0, 2, 3, 4], edges = []\<rparr>,
               fw_realization =
                 [(0, PyMat [0, 0]), (2, PyMat [1, 0]), (3, PyMat [0, 1]), (4, PyMat [1, 1])],
               fw_dim = 2\<rparr>) \<and>
   int (length (vertices (fw_graph gap_framework))) = 3 \<and>
   (3 :: int) \<in> set (vertices (fw_graph gap_framework)) \<and>
   (4 :: int) \<notin> set (vertices (fw_graph gap_framework))"
proof -
  have vs: "vertices (fw_graph gap_framework) = [0, 2, 3]"
    by (simp add: gap_framework_def vertices_def)
  obtain c where run: "add_vertex gap_framework (PySeq [1, 1]) None
        = (None, gap_framework\<lparr>fw_realization :=
                     AList.update c (Matrix (PySeq [1, 1])) (fw_realization gap_framework),
                   fw_graph := (fw_graph gap_framework)\<lparr>nodes :=
                     nodes (fw_graph gap_framework) @ [c]\<rparr>\<rparr>)"
    and low: "int (length (vertices (fw_graph gap_framework))) \<le> c"
    and fresh: "c \<notin> set (vertices (fw_graph gap_framework))"
    and least: "\<forall>k. int (length (vertices (fw_graph gap_framework))) \<le> k \<and> k < c
            \<longrightarrow> k \<in> set (vertices (fw_graph gap_framework))"
    using add_vertex_unnamed_label [of gap_framework "PySeq [1, 1]"] by blast
  have "c = 4"
  proof -
    from low fresh have "4 \<le> c" unfolding vs by (simp; arith)
    moreover have "\<not> 4 < c"
    proof
      assume "4 < c"
      then have "int (length (vertices (fw_graph gap_framework))) \<le> 4 \<and> 4 < c"
        unfolding vs by simp
      with least have "(4 :: int) \<in> set (vertices (fw_graph gap_framework))"
        by blast
      then show False unfolding vs by simp
    qed
    ultimately show ?thesis by simp
  qed
  with run show ?thesis
    by (simp add: gap_framework_def vertices_def Matrix_def)
qed

text \<open>
  The claim as stated fails on the vertices 0, 2, 3: the new vertex is 4, although 1
  is smaller, not negative and unused.
\<close>

theorem add_vertex_smallest_counterexample:
  "add_vertex gap_framework (PySeq [1, 1]) None
     = (None, \<lparr>fw_graph = \<lparr>nodes = [0, 2, 3, 4], edges = []\<rparr>,
               fw_realization =
                 [(0, PyMat [0, 0]), (2, PyMat [1, 0]), (3, PyMat [0, 1]), (4, PyMat [1, 1])],
               fw_dim = 2\<rparr>) \<and>
   vertices (fw_graph gap_framework) = [0, 2, 3] \<and>
   (1 :: int) \<notin> set (vertices (fw_graph gap_framework)) \<and> (0 :: int) \<le> 1 \<and> (1 :: int) < 4"
proof -
  have "add_vertex gap_framework (PySeq [1, 1]) None
     = (None, \<lparr>fw_graph = \<lparr>nodes = [0, 2, 3, 4], edges = []\<rparr>,
               fw_realization =
                 [(0, PyMat [0, 0]), (2, PyMat [1, 0]), (3, PyMat [0, 1]), (4, PyMat [1, 1])],
               fw_dim = 2\<rparr>)"
    by code_simp
  then show ?thesis
    by (simp add: gap_framework_def vertices_def)
qed

section \<open>Replacing coordinates\<close>

lemma update_each_never_attribute_error:
  "fst (update_each indexable F kps) \<noteq> Some AttributeError"
proof (induction kps arbitrary: F)
  case Nil
  then show ?case by simp
next
  case (Cons kp kps)
  obtain v p where kp: "kp = (v, p)" by (cases kp)
  show ?case
  proof (cases "change_vertex_coordinates F v p")
    case (Pair err F')
    then show ?thesis
      using Cons.IH [of F']
      by (cases err) (auto simp: kp change_vertex_coordinates_def split: if_splits)
  qed
qed

lemma duplicate_check_never_fires:
  "fst (change_vertex_coordinates_seq indexable F vs points) \<noteq> Some AttributeError"
  by (simp add: change_vertex_coordinates_seq_def update_each_never_attribute_error)

text \<open>
  Claim C8. Both sides of the comparison that should detect a repeated key are the
  value of \<open>list.sort()\<close>, which is \<open>None\<close>, so the check never fires: a batch that
  names vertex 0 twice succeeds, and the second point wins. A violation found later
  in the batch, here a point of the wrong length for vertex 1, leaves the earlier
  update of vertex 0 in place.
\<close>

theorem batch_update_accepts_repeated_key:
  "change_vertex_coordinates_list triangle [0, 0] [PySeq [5, 5], PySeq [7, 7]]
     = (None, triangle\<lparr>fw_realization :=
                [(0, PySeq [7, 7]), (1, PyMat [1, 0]), (2, PyMat [0, 1])]\<rparr>) \<and>
   change_vertex_coordinates_list triangle [0, 1] [PySeq [5, 5], PySeq [1, 2, 3]]
     = (Some AssertionError, triangle\<lparr>fw_realization :=
                [(0, PySeq [5, 5]), (1, PyMat [1, 0]), (2, PyMat [0, 1])]\<rparr>)"
  by (simp add: change_vertex_coordinates_list_def change_vertex_coordinates_seq_def
      change_vertex_coordinates_def triangle_def len_def)

lemma change_realization_result:
  "change_realization F d = (if d = [] then (None, F) else (Some TypeError, F))"
  by (cases d) (auto simp: change_realization_def change_vertex_coordinates_seq_def)

lemma check_vertices_None_iff:
  "check_vertices vs r d = None \<longleftrightarrow>
   list_all (\<lambda>v. case map_of r v of None \<Rightarrow> False | Some p \<Rightarrow> int (len p) = d) vs"
  by (induction vs) (auto split: option.splits)

lemma invariant_check_vertices:
  assumes "framework_invariant F"
  shows "check_vertices (vertices (fw_graph F)) (fw_realization F) (dimension F) = None"
proof -
  have "int (len p) = fw_dim F" if "map_of (fw_realization F) v = Some p" for v p
    using assms map_of_SomeD [OF that]
    by (auto simp: framework_invariant_def list_all_iff)
  then show ?thesis
    using assms
    by (auto simp: check_vertices_None_iff framework_invariant_def list_all_iff dimension_def
        split: option.splits)
qed

text \<open>
  Claim C9. On a framework that satisfies the invariant, \<open>set_realization\<close> applied to
  the result of \<open>get_realization\<close> succeeds and leaves the framework as it was; so the
  rigidity matrix, under every vertex and edge order, its rank, the flexes and the
  rigidity predicates give the same results afterwards.
\<close>

theorem realization_round_trip:
  assumes "framework_invariant F"
  shows "\<exists>F'. set_realization F (get_realization F) = (None, F') \<and> F' = F \<and>
      rigidity_matrix F' vertex_order edges_ordered
        = rigidity_matrix F vertex_order edges_ordered \<and>
      rigidity_matrix_rank F' = rigidity_matrix_rank F \<and>
      infinitesimal_flexes F' include_trivial = infinitesimal_flexes F include_trivial \<and>
      is_infinitesimally_rigid F' = is_infinitesimally_rigid F \<and>
      is_infinitesimally_flexible F' = is_infinitesimally_flexible F \<and>
      snd (is_minimally_infinitesimally_rigid [F'] 0)
        = snd (is_minimally_infinitesimally_rigid [F] 0) \<and>
      snd (is_redundantly_rigid [F'] 0) = snd (is_redundantly_rigid [F] 0)"
  using invariant_check_vertices [OF assms]
  by (simp add: set_realization_def get_realization_def)

theorem realization_round_trip_witness:
  "framework_invariant triangle \<and>
   set_realization triangle (get_realization triangle) = (None, triangle)"
proof -
  have inv: "framework_invariant triangle"
    by code_simp
  from realization_round_trip [OF inv] inv show ?thesis
    by blast
qed

section \<open>Infinitesimal flexes of well-formed frameworks\<close>

lemma collinear_matrix:
  "rigidity_matrix collinear_triangle None True
     = Inr [[- 1, 0, 1, 0, 0, 0], [- 2, 0, 0, 0, 2, 0], [0, 0, - 1, 0, 1, 0]]"
  by code_simp

lemma collinear_rank:
  "rank [[- 1, 0, 1, 0, 0, 0], [- 2, 0, 0, 0, 2, 0], [0, 0, - 1, 0, 1, 0]] = 2"
  by code_simp

lemma collinear_nullspace:
  "nullspace [[- 1, 0, 1, 0, 0, 0], [- 2, 0, 0, 0, 2, 0], [0, 0, - 1, 0, 1, 0]]
     = [[0, 1, 0, 0, 0, 0], [0, 0, 0, 1, 0, 0], [1, 0, 1, 0, 1, 0], [0, 0, 0, 0, 0, 1]]"
  by code_simp

lemma collinear_trivial:
  "trivial_infinitesimal_flexes collinear_triangle
     = Inr [[0, 1, 0, 0, 0, 0], [0, 0, 0, 1, 0, 0], [1, 0, 1, 0, 1, 0], [0, 0, 0, 0, 0, 1]]"
  by code_simp

lemma collinear_orthogonalize:
  "orthogonalize
     ([[0, 1, 0, 0, 0, 0], [0, 0, 0, 1, 0, 0], [1, 0, 1, 0, 1, 0], [0, 0, 0, 0, 0, 1]] @
      [[0, 1, 0, 0, 0, 0], [0, 0, 0, 1, 0, 0], [1, 0, 1, 0, 1, 0], [0, 0, 0, 0, 0, 1]])
     = [[0, 1, 0, 0, 0, 0], [0, 0, 0, 1, 0, 0], [1, 0, 1, 0, 1, 0], [0, 0, 0, 0, 0, 1]]"
  by (simp add: orthogonalize_def keep_nonzero_def perp_to_subspace_def project_def dot_def
      is_zero_matrix_def)

lemma collinear_nontrivial: "nontrivial_infinitesimal_flexes collinear_triangle = Inr []"
  using collinear_matrix collinear_nullspace collinear_trivial collinear_orthogonalize
  by (simp add: nontrivial_infinitesimal_flexes_def infinitesimal_flexes_def slice_def)

lemma two_points_flexes: "infinitesimal_flexes two_points True = Inr []"
  by code_simp

lemma gap_nontrivial: "nontrivial_infinitesimal_flexes gap_framework = Inl AssertionError"
  by code_simp


subsection \<open>Pivots and the size of the nullspace basis\<close>

lemma rref_from_pivots:
  assumes "distinct pivots" and "\<And>p. p \<in> set pivots \<Longrightarrow> p < j"
  shows "distinct (snd (rref_from n j upper rest pivots)) \<and>
         (\<forall>p \<in> set (snd (rref_from n j upper rest pivots)). p < j + n)"
  using assms
proof (induction n arbitrary: j upper rest pivots)
  case 0
  then show ?case by simp
next
  case (Suc n)
  show ?case
  proof (cases "find_pivot j rest")
    case None
    have "distinct (snd (rref_from n (Suc j) upper rest pivots)) \<and>
          (\<forall>p \<in> set (snd (rref_from n (Suc j) upper rest pivots)). p < Suc j + n)"
      using Suc.prems by (intro Suc.IH) (auto simp: less_Suc_eq)
    with None show ?thesis by simp
  next
    case (Some k)
    let ?row = "rest ! k"
    let ?p = "map (\<lambda>x. x / (?row ! j)) ?row"
    let ?upper = "map (eliminate j ?p) upper @ [?p]"
    let ?rest = "map (eliminate j ?p) (tl (rest[k := hd rest]))"
    have "distinct (snd (rref_from n (Suc j) ?upper ?rest (pivots @ [j]))) \<and>
          (\<forall>p \<in> set (snd (rref_from n (Suc j) ?upper ?rest (pivots @ [j]))). p < Suc j + n)"
      using Suc.prems by (intro Suc.IH) (auto simp: less_Suc_eq)
    with Some show ?thesis by (simp add: Let_def)
  qed
qed

lemma rref_pivots:
  "distinct (snd (rref M))" "p \<in> set (snd (rref M)) \<Longrightarrow> p < cols M"
  using rref_from_pivots [of "[]" 0 "cols M" "[]" M] by (auto simp: rref_def)

lemma rank_le_cols: "rank M \<le> cols M"
proof -
  have "set (snd (rref M)) \<subseteq> {0..<cols M}"
    using rref_pivots(2) [of _ M] by auto
  then have "card (set (snd (rref M))) \<le> card {0..<cols M}"
    by (intro card_mono) simp_all
  then show ?thesis
    using rref_pivots(1) [of M] by (simp add: rank_def distinct_card)
qed

lemma length_nullspace: "length (nullspace M) = cols M - rank M"
proof -
  let ?pv = "snd (rref M)"
  have sub: "set ?pv \<subseteq> {0..<cols M}"
    using rref_pivots(2) [of _ M] by auto
  have "length (nullspace M) = length (filter (\<lambda>i. i \<notin> set ?pv) [0..<cols M])"
    by (simp add: nullspace_def case_prod_beta)
  also have "\<dots> = card ({i. i \<notin> set ?pv} \<inter> set [0..<cols M])"
    by (simp add: distinct_length_filter)
  also have "{i. i \<notin> set ?pv} \<inter> set [0..<cols M] = {0..<cols M} - set ?pv"
    by auto
  also have "card ({0..<cols M} - set ?pv) = card {0..<cols M} - card (set ?pv)"
    using sub by (intro card_Diff_subset) simp_all
  finally show ?thesis
    using rref_pivots(1) [of M] by (simp add: rank_def distinct_card)
qed

subsection \<open>The default rigidity matrix of a well-formed framework\<close>

lemma rigidity_matrix_default:
  "well_formed F \<Longrightarrow> rigidity_matrix F None True = Inr (default_matrix F)"
  using rigidity_matrix_well_formed [OF _ choose_vertex_order_default, of F True]
  by (simp add: default_matrix_def)

lemma default_matrix_cols:
  assumes wf: "well_formed F" and ne: "edges (fw_graph F) \<noteq> []"
  shows "cols (default_matrix F) = nat (dimension F) * length (vertices (fw_graph F))"
proof -
  let ?es = "edge_order_of F True"
  from ne have pos: "0 < length ?es"
    by simp
  then have nonempty: "?es \<noteq> []"
    by (metis length_greater_0_conv)
  then have "hd ?es \<in> set ?es"
    by (rule hd_in_set)
  then have "hd ?es \<in> set (edges (fw_graph F))"
    by simp
  then have row: "length (edge_row F (sort (vertices (fw_graph F))) (hd ?es))
      = nat (dimension F) * length (vertices (fw_graph F))"
    using edge_row_length [OF wf, of "hd ?es" "sort (vertices (fw_graph F))"] by simp
  show ?thesis
  proof (cases "nat (dimension F) * length (vertices (fw_graph F)) = 0")
    case True
    then show ?thesis
      by (simp add: default_matrix_def cols_def)
  next
    case False
    then have "default_matrix F = map (edge_row F (sort (vertices (fw_graph F)))) ?es"
      by (simp add: default_matrix_def)
    with row nonempty show ?thesis
      by (simp add: cols_map_rows)
  qed
qed

lemma well_formed_dimension_nonneg:
  assumes wf: "well_formed F" and ne: "vertices (fw_graph F) \<noteq> []"
  shows "0 \<le> dimension F"
proof -
  from ne obtain v where "v \<in> set (vertices (fw_graph F))"
    by (cases "vertices (fw_graph F)") auto
  from map_of_well_formed [OF wf this] show ?thesis
    by (auto simp: dimension_def)
qed

lemma edges_need_vertices:
  assumes "well_formed F" and "edges (fw_graph F) \<noteq> []"
  shows "vertices (fw_graph F) \<noteq> []"
proof -
  from assms(2) obtain e where "e \<in> set (edges (fw_graph F))"
    by (cases "edges (fw_graph F)") auto
  with assms(1) have "fst e \<in> set (vertices (fw_graph F))"
    by (auto simp: well_formed_def graph_ok_def list_all_iff vertices_def)
  then show ?thesis by auto
qed

lemma all_flexes_count:
  assumes wf: "well_formed F" and ne: "edges (fw_graph F) \<noteq> []"
  shows "int (length (nullspace (default_matrix F)))
     = dimension F * int (length (vertices (fw_graph F))) - int (rank (default_matrix F))"
proof -
  have "0 \<le> dimension F"
    by (rule well_formed_dimension_nonneg [OF wf edges_need_vertices [OF wf ne]])
  then have "int (cols (default_matrix F)) = dimension F * int (length (vertices (fw_graph F)))"
    by (simp add: default_matrix_cols [OF wf ne])
  then show ?thesis
    using rank_le_cols [of "default_matrix F"] by (simp add: length_nullspace)
qed


subsection \<open>The constructor establishes well-formedness\<close>

lemma checked_realization:
  assumes "check_vertices vs r d = None"
  shows "List.map_filter (\<lambda>v. map_option (\<lambda>p. (v, Matrix p)) (map_of r v)) vs
     = map (\<lambda>v. (v, Matrix (the (map_of r v)))) vs"
  using assms
  by (induction vs) (auto split: option.splits if_splits)

lemma check_vertices_member:
  assumes "check_vertices vs r d = None" and "v \<in> set vs"
  shows "\<exists>p. map_of r v = Some p \<and> int (len p) = d"
  using assms by (auto simp: check_vertices_None_iff list_all_iff split: option.splits)

lemma Framework_init_well_formed:
  assumes built: "Framework_init g r d = Inr F" and g: "graph_ok g"
  shows "well_formed F"
proof -
  let ?d = "case r of [] \<Rightarrow> d | (_, p) # _ \<Rightarrow> int (len p)"
  let ?f = "\<lambda>v. (v, Matrix (the (map_of r v)))"
  from built have check: "check_vertices (vertices g) r ?d = None"
    by (auto simp: Framework_init_def Let_def split: option.splits)
  with built have F: "F = \<lparr>fw_graph = g, fw_realization = map ?f (vertices g), fw_dim = ?d\<rparr>"
    by (simp add: Framework_init_def Let_def checked_realization)
  have entry: "map_of (map ?f (vertices g)) v = Some (Matrix (the (map_of r v)))"
    if "v \<in> set (vertices g)" for v
    using that by (simp add: map_of_map_restrict)
  have len: "int (len (Matrix (the (map_of r v)))) = ?d" if "v \<in> set (vertices g)" for v
    using check_vertices_member [OF check that] by (auto simp: Matrix_def len_def)
  have "distinct (vertices g)"
    using g by (simp add: graph_ok_def vertices_def)
  then have "distinct (map fst (fw_realization F))"
    unfolding F by (simp add: comp_def)
  moreover have "list_all (\<lambda>v. map_of (fw_realization F) v \<noteq> None) (vertices (fw_graph F))"
    unfolding F using entry by (simp add: list_all_iff)
  moreover have "list_all (\<lambda>kp. int (len (snd kp)) = fw_dim F) (fw_realization F)"
    unfolding F using len by (simp add: list_all_iff)
  ultimately have "framework_invariant F"
    by (simp add: framework_invariant_def)
  moreover have "list_all (\<lambda>kp. is_matrix (snd kp)) (fw_realization F)"
    unfolding F by (simp add: list_all_iff Matrix_def)
  ultimately show ?thesis
    using g by (simp add: well_formed_def F)
qed

lemma Framework_init_succeeds:
  assumes "\<And>v. v \<in> set (vertices g) \<Longrightarrow>
    \<exists>p. map_of r v = Some p \<and> int (len p) = (case r of [] \<Rightarrow> d | (_, p) # _ \<Rightarrow> int (len p))"
  shows "\<exists>F. Framework_init g r d = Inr F"
proof -
  have "check_vertices (vertices g) r (case r of [] \<Rightarrow> d | (_, p) # _ \<Rightarrow> int (len p)) = None"
    unfolding check_vertices_None_iff list_all_iff using assms by fastforce
  then show ?thesis
    by (simp add: Framework_init_def Let_def)
qed

subsection \<open>The complete graph on the first labels\<close>

lemma Graph_init_ok: "graph_ok (Graph_init es)"
  by (auto simp: graph_ok_def Graph_init_def list_all_iff)

lemma Graph_init_nodes:
  "v \<in> set (nodes (Graph_init es)) \<Longrightarrow> \<exists>e \<in> set es. v = fst e \<or> v = snd e"
  by (auto simp: Graph_init_def)

lemma complete_graph_edges_bounds:
  assumes "e \<in> set (complete_graph_edges n)"
  shows "0 \<le> fst e \<and> fst e < int n \<and> 0 \<le> snd e \<and> snd e < int n"
  using assms by (auto simp: complete_graph_edges_def)

lemma first_vector_length:
  assumes "framework_invariant F"
  shows "(case fw_realization F of [] \<Rightarrow> dimension F | (_, p) # _ \<Rightarrow> int (len p)) = dimension F"
  using assms
  by (cases "fw_realization F") (auto simp: framework_invariant_def dimension_def)

lemma complete_framework_built:
  assumes wf: "well_formed F"
    and labels: "set (vertices (fw_graph F)) = {0..<int (length (vertices (fw_graph F)))}"
  shows "\<exists>FK. Framework_init (Graph_init (complete_graph_edges (length (vertices (fw_graph F)))))
           (get_realization F) (dimension F) = Inr FK \<and> well_formed FK"
proof -
  let ?n = "length (vertices (fw_graph F))"
  let ?g = "Graph_init (complete_graph_edges ?n)"
  have inv: "framework_invariant F"
    using wf by (simp add: well_formed_def)
  have "\<exists>p. map_of (get_realization F) v = Some p \<and>
      int (len p) = (case get_realization F of [] \<Rightarrow> dimension F | (_, p) # _ \<Rightarrow> int (len p))"
    if "v \<in> set (vertices ?g)" for v
  proof -
    have "\<exists>e \<in> set (complete_graph_edges ?n). v = fst e \<or> v = snd e"
      using that by (intro Graph_init_nodes) (simp add: vertices_def)
    then obtain e where "e \<in> set (complete_graph_edges ?n)" and "v = fst e \<or> v = snd e"
      by blast
    with complete_graph_edges_bounds [of e ?n] have "v \<in> {0..<int ?n}"
      by auto
    with labels have "v \<in> set (vertices (fw_graph F))"
      by simp
    from map_of_well_formed [OF wf this] show ?thesis
      unfolding get_realization_def first_vector_length [OF inv]
      by (auto simp: len_def dimension_def)
  qed
  then obtain FK where "Framework_init ?g (get_realization F) (dimension F) = Inr FK"
    using Framework_init_succeeds [of ?g "get_realization F" "dimension F"] by blast
  with Framework_init_well_formed [OF this Graph_init_ok] show ?thesis
    by blast
qed


subsection \<open>Dot products and row operations\<close>

lemma dot_Nil [simp]: "dot [] x = 0" "dot x [] = 0"
  by (simp_all add: dot_def)

lemma dot_Cons [simp]: "dot (a # as) (b # bs) = a * b + dot as bs"
  by (simp add: dot_def)

lemma length_eliminate [simp]: "length (eliminate j p r) = min (length p) (length r)"
  by (simp add: eliminate_def)

lemma nth_eliminate:
  "col < length p \<Longrightarrow> col < length r \<Longrightarrow> eliminate j p r ! col = r ! col - r ! j * p ! col"
  by (simp add: eliminate_def)

lemma dot_combination:
  "length p = length r \<Longrightarrow> length r = length x \<Longrightarrow>
   dot (map2 (\<lambda>a b. b - c * a) p r) x = dot r x - c * dot p x"
proof (induction p r x rule: list_induct3)
  case Nil
  then show ?case by simp
next
  case (Cons a p b r y x)
  then show ?case by (simp add: algebra_simps)
qed

lemma dot_eliminate:
  "length p = length r \<Longrightarrow> length x = length r \<Longrightarrow>
   dot (eliminate j p r) x = dot r x - r ! j * dot p x"
  unfolding eliminate_def by (rule dot_combination) simp_all

lemma dot_divide_left: "dot (map (\<lambda>y. y / a) r) x = dot r x / a"
proof (induction r x rule: list_induct2')
  case (4 b r y x)
  then show ?case by (simp add: add_divide_distrib)
qed simp_all

subsection \<open>The pivot search\<close>

lemma find_pivot_Some:
  "find_pivot j rs = Some k \<Longrightarrow> k < length rs \<and> rs ! k ! j \<noteq> 0"
proof (induction rs arbitrary: k)
  case Nil
  then show ?case by simp
next
  case (Cons r rs)
  then show ?case by (cases k) (auto split: if_splits)
qed

lemma find_pivot_None: "find_pivot j rs = None \<Longrightarrow> r \<in> set rs \<Longrightarrow> r ! j = 0"
  by (induction rs) (auto split: if_splits)

lemma swapped_rest_subset: "set (tl (rs[k := hd rs])) \<subseteq> set rs"
proof (cases rs)
  case Nil
  then show ?thesis by simp
next
  case (Cons h t)
  show ?thesis
  proof (cases k)
    case 0
    with Cons show ?thesis by auto
  next
    case (Suc k')
    have "set (t[k' := h]) \<subseteq> insert h (set t)"
      by (rule set_update_subset_insert)
    with Cons Suc show ?thesis by auto
  qed
qed

lemma swapped_rest_cover:
  assumes "k < length rs"
  shows "set rs \<subseteq> insert (rs ! k) (set (tl (rs[k := hd rs])))"
proof (cases rs)
  case Nil
  with assms show ?thesis by simp
next
  case (Cons h t)
  show ?thesis
  proof (cases k)
    case 0
    with Cons show ?thesis by auto
  next
    case (Suc k')
    with assms Cons have k': "k' < length t" by simp
    have "x \<in> insert (t ! k') (set (t[k' := h]))" if "x \<in> set t" for x
    proof -
      from that obtain i where i: "i < length t" "t ! i = x"
        by (auto simp: in_set_conv_nth)
      show ?thesis
      proof (cases "i = k'")
        case True
        with i show ?thesis by simp
      next
        case False
        with i have "t[k' := h] ! i = x" by simp
        moreover have "i < length (t[k' := h])" using i by simp
        ultimately have "x \<in> set (t[k' := h])"
          by (metis nth_mem)
        then show ?thesis by simp
      qed
    qed
    moreover have "h \<in> set (t[k' := h])"
      using k' by (simp add: set_update_memI)
    ultimately show ?thesis
      using Cons Suc by auto
  qed
qed

subsection \<open>Row reduction keeps the solutions\<close>

lemma rref_from_annihilated:
  assumes "\<And>r. r \<in> set upper \<union> set rest \<Longrightarrow> length r = length x"
  shows "annihilated (fst (rref_from n j upper rest pivots)) x
     \<longleftrightarrow> annihilated (upper @ rest) x"
  using assms
proof (induction n arbitrary: j upper rest pivots)
  case 0
  then show ?case by simp
next
  case (Suc n)
  show ?case
  proof (cases "find_pivot j rest")
    case None
    with Suc.IH [of upper rest "Suc j" pivots] Suc.prems show ?thesis
      by simp
  next
    case (Some k)
    let ?row = "rest ! k"
    let ?p = "map (\<lambda>y. y / (?row ! j)) ?row"
    let ?others = "tl (rest[k := hd rest])"
    let ?upper = "map (eliminate j ?p) upper @ [?p]"
    let ?rest = "map (eliminate j ?p) ?others"
    from find_pivot_Some [OF Some] have k: "k < length rest" and nz: "?row ! j \<noteq> 0"
      by simp_all
    from k have row: "?row \<in> set rest"
      by simp
    have others: "set ?others \<subseteq> set rest"
      by (rule swapped_rest_subset)
    have cover: "set rest \<subseteq> insert ?row (set ?others)"
      by (rule swapped_rest_cover [OF k])
    have len: "length r = length x" if "r \<in> set upper \<union> set rest" for r
      using that Suc.prems by blast
    have "?row \<in> set upper \<union> set rest"
      using row by blast
    from len [OF this] have lenrow: "length ?row = length x" .
    then have lenp: "length ?p = length x"
      by simp
    have elim: "dot (eliminate j ?p r) x = dot r x - r ! j * dot ?p x"
      if "r \<in> set upper \<union> set rest" for r
      by (rule dot_eliminate) (simp_all add: len [OF that] lenrow)
    have p: "dot ?p x = dot ?row x / (?row ! j)"
      by (rule dot_divide_left)
    have "annihilated (fst (rref_from (Suc n) j upper rest pivots)) x
        \<longleftrightarrow> annihilated (?upper @ ?rest) x"
    proof -
      have "length r = length x" if "r \<in> set ?upper \<union> set ?rest" for r
        using that len lenrow others by auto
      from Suc.IH [of ?upper ?rest "Suc j" "pivots @ [j]", OF this] Some show ?thesis
        by (simp add: Let_def)
    qed
    also have "\<dots> \<longleftrightarrow> annihilated (upper @ rest) x"
    proof
      assume new: "annihilated (?upper @ ?rest) x"
      then have p0: "dot ?p x = 0"
        by (simp add: annihilated_def)
      with p nz have row0: "dot ?row x = 0"
        by simp
      have "dot r x = 0" if "r \<in> set upper" for r
      proof -
        from new that have "dot (eliminate j ?p r) x = 0"
          by (simp add: annihilated_def list_all_iff)
        with elim [of r] that p0 show ?thesis by simp
      qed
      moreover have "dot r x = 0" if "r \<in> set rest" for r
      proof (cases "r = ?row")
        case True
        with row0 show ?thesis by simp
      next
        case False
        with cover that have "r \<in> set ?others" by auto
        with new have "dot (eliminate j ?p r) x = 0"
          by (simp add: annihilated_def list_all_iff)
        with elim [of r] that p0 show ?thesis by simp
      qed
      ultimately show "annihilated (upper @ rest) x"
        by (auto simp: annihilated_def list_all_iff)
    next
      assume old: "annihilated (upper @ rest) x"
      then have all0: "dot r x = 0" if "r \<in> set upper \<union> set rest" for r
        using that by (auto simp: annihilated_def list_all_iff)
      from all0 [of ?row] row have p0: "dot ?p x = 0"
        using p by simp
      have "dot (eliminate j ?p r) x = 0" if "r \<in> set upper \<union> set rest" for r
        using elim [OF that] all0 [OF that] p0 by simp
      with p0 others show "annihilated (?upper @ ?rest) x"
        by (auto simp: annihilated_def list_all_iff)
    qed
    finally show ?thesis .
  qed
qed


subsection \<open>The shape of the reduced matrix\<close>

lemma reduced_skip:
  assumes "reduced c j upper rest pivots" and "find_pivot j rest = None"
  shows "reduced c (Suc j) upper rest pivots"
proof -
  have "r ! col = 0" if "r \<in> set rest" and "col < Suc j" for r col
  proof (cases "col = j")
    case True
    with find_pivot_None [OF assms(2) that(1)] show ?thesis by simp
  next
    case False
    with that have "col < j" by simp
    with assms(1) that(1) show ?thesis by (simp add: reduced_def)
  qed
  with assms(1) show ?thesis
    by (auto simp: reduced_def less_Suc_eq)
qed

lemma reduced_pivot:
  assumes red: "reduced c j upper rest pivots" and j: "j < c"
    and piv: "find_pivot j rest = Some k"
  shows "reduced c (Suc j)
     (map (eliminate j (map (\<lambda>y. y / (rest ! k ! j)) (rest ! k))) upper
        @ [map (\<lambda>y. y / (rest ! k ! j)) (rest ! k)])
     (map (eliminate j (map (\<lambda>y. y / (rest ! k ! j)) (rest ! k))) (tl (rest[k := hd rest])))
     (pivots @ [j])"
proof -
  let ?row = "rest ! k"
  let ?p = "map (\<lambda>y. y / (?row ! j)) ?row"
  let ?others = "tl (rest[k := hd rest])"
  let ?upper = "map (eliminate j ?p) upper @ [?p]"
  let ?rest = "map (eliminate j ?p) ?others"
  from find_pivot_Some [OF piv] have k: "k < length rest" and nz: "?row ! j \<noteq> 0"
    by simp_all
  from k have row: "?row \<in> set rest"
    by simp
  have others: "set ?others \<subseteq> set rest"
    by (rule swapped_rest_subset)
  from red have len_upper: "length upper = length pivots"
    and lens: "\<And>r. r \<in> set upper \<union> set rest \<Longrightarrow> length r = c"
    and dist: "distinct pivots"
    and below: "\<And>p. p \<in> set pivots \<Longrightarrow> p < j"
    and unit: "\<And>k i. k < length upper \<Longrightarrow> i < length pivots \<Longrightarrow>
        upper ! k ! (pivots ! i) = (if k = i then 1 else 0)"
    and zero: "\<And>r col. r \<in> set rest \<Longrightarrow> col < j \<Longrightarrow> r ! col = 0"
    by (auto simp: reduced_def)
  have lenrow: "length ?row = c"
    using lens row by blast
  have p_nth: "?p ! col = ?row ! col / (?row ! j)" if "col < c" for col
    using that lenrow by simp
  have p_j: "?p ! j = 1"
    using p_nth [OF j] nz by simp
  have p_low: "?p ! col = 0" if "col < j" for col
    using p_nth [of col] zero [OF row that] that j by simp
  have elim: "eliminate j ?p r ! col = r ! col - r ! j * ?p ! col"
    if "r \<in> set upper \<union> set rest" and "col < c" for r col
    using that lens [OF that(1)] lenrow by (simp add: nth_eliminate)
  have elim_j: "eliminate j ?p r ! j = 0" if "r \<in> set upper \<union> set rest" for r
    using elim [OF that j] p_j by simp
  have elim_low: "eliminate j ?p r ! col = r ! col"
    if "r \<in> set upper \<union> set rest" and "col < j" for r col
    using elim [OF that(1), of col] p_low [OF that(2)] that(2) j by simp
  have "length ?upper = length (pivots @ [j])"
    using len_upper by simp
  moreover have "length r = c" if "r \<in> set ?upper \<union> set ?rest" for r
    using that lens lenrow others by auto
  moreover have "distinct (pivots @ [j])"
    using dist below by auto
  moreover have "p < Suc j" if "p \<in> set (pivots @ [j])" for p
    using that below by (auto simp: less_Suc_eq)
  moreover have "?upper ! k' ! ((pivots @ [j]) ! i) = (if k' = i then 1 else 0)"
    if k': "k' < length ?upper" and i: "i < length (pivots @ [j])" for k' i
  proof (cases "k' < length upper")
    case True
    then have mem: "upper ! k' \<in> set upper \<union> set rest"
      by simp
    have row': "?upper ! k' = eliminate j ?p (upper ! k')"
      using True by (simp add: nth_append)
    show ?thesis
    proof (cases "i < length pivots")
      case True
      then have "pivots ! i < j"
        using below by simp
      with elim_low [OF mem this] unit [OF \<open>k' < length upper\<close> True] row' True
      show ?thesis by (simp add: nth_append)
    next
      case False
      with i have "i = length pivots" by simp
      with elim_j [OF mem] row' \<open>k' < length upper\<close> len_upper show ?thesis
        by (simp add: nth_append)
    qed
  next
    case False
    with k' have k'_eq: "k' = length upper" by simp
    then have row': "?upper ! k' = ?p"
      by (simp add: nth_append)
    show ?thesis
    proof (cases "i < length pivots")
      case True
      then have "pivots ! i < j"
        using below by simp
      with p_low [OF this] row' True k'_eq len_upper show ?thesis
        by (simp add: nth_append)
    next
      case False
      with i have "i = length pivots" by simp
      with p_j row' k'_eq len_upper show ?thesis
        by (simp add: nth_append)
    qed
  qed
  moreover have "r ! col = 0" if "r \<in> set ?rest" and "col < Suc j" for r col
  proof -
    from that(1) obtain r0 where r0: "r0 \<in> set ?others" and r: "r = eliminate j ?p r0"
      by auto
    with others have mem: "r0 \<in> set upper \<union> set rest" and in_rest: "r0 \<in> set rest"
      by auto
    show ?thesis
    proof (cases "col = j")
      case True
      with elim_j [OF mem] r show ?thesis by simp
    next
      case False
      with that(2) have "col < j" by simp
      with elim_low [OF mem this] zero [OF in_rest this] r show ?thesis by simp
    qed
  qed
  ultimately show ?thesis
    unfolding reduced_def by blast
qed

lemma rref_from_reduced:
  assumes "reduced c j upper rest pivots" and "j + n = c"
  shows "\<exists>upper' rest' pivots'.
     rref_from n j upper rest pivots = (upper' @ rest', pivots') \<and>
     reduced c c upper' rest' pivots'"
  using assms
proof (induction n arbitrary: j upper rest pivots)
  case 0
  then show ?case by auto
next
  case (Suc n)
  from Suc.prems have j: "j < c" and next_j: "Suc j + n = c"
    by simp_all
  show ?case
  proof (cases "find_pivot j rest")
    case None
    from Suc.IH [OF reduced_skip [OF Suc.prems(1) None] next_j] None show ?thesis
      by simp
  next
    case (Some k)
    from Suc.IH [OF reduced_pivot [OF Suc.prems(1) j Some] next_j] Some show ?thesis
      by (simp add: Let_def)
  qed
qed


subsection \<open>The entries of the nullspace vectors\<close>

lemma back_substitution_length:
  "length (foldl (\<lambda>vec (i, c). vec[c := vec ! c - R ! i ! free]) v ps) = length v"
  by (induction ps arbitrary: v) (auto simp: case_prod_beta)

lemma back_substitution_other:
  "col \<notin> snd ` set ps \<Longrightarrow>
   foldl (\<lambda>vec (i, c). vec[c := vec ! c - R ! i ! free]) v ps ! col = v ! col"
  by (induction ps arbitrary: v) (auto simp: case_prod_beta)

lemma back_substitution_pivot:
  "distinct (map snd ps) \<Longrightarrow> (i, col) \<in> set ps \<Longrightarrow> col < length v \<Longrightarrow>
   foldl (\<lambda>vec (i, c). vec[c := vec ! c - R ! i ! free]) v ps ! col = v ! col - R ! i ! free"
proof (induction ps arbitrary: v)
  case Nil
  then show ?case by simp
next
  case (Cons q ps)
  obtain i0 c0 where q: "q = (i0, c0)" by (cases q)
  show ?case
  proof (cases "(i, col) = q")
    case True
    with Cons.prems q have "col \<notin> snd ` set ps"
      by auto
    from back_substitution_other [OF this,
        where R = R and free = free and v = "v[c0 := v ! c0 - R ! i0 ! free]"]
      True q Cons.prems(3)
    show ?thesis
      by simp
  next
    case False
    with Cons.prems q have mem: "(i, col) \<in> set ps" and ne: "col \<noteq> c0"
      by (auto simp: rev_image_eqI)
    from Cons.prems have "distinct (map snd ps)"
      by simp
    from Cons.IH [OF this mem, of "v[c0 := v ! c0 - R ! i0 ! free]"] Cons.prems(3) ne q
    show ?thesis by simp
  qed
qed

lemma nullspace_vector_length [simp]: "length (nullspace_vector R pivots n free) = n"
  by (simp add: nullspace_vector_def back_substitution_length)

lemma nullspace_vector_free:
  assumes "free < n" and "free \<notin> set pivots"
  shows "nullspace_vector R pivots n free ! free = 1"
proof -
  have "free \<notin> snd ` set (zip [0..<length pivots] pivots)"
    using assms(2) by (auto dest: set_zip_rightD)
  from back_substitution_other [OF this,
      where R = R and free = free and v = "(replicate n 0)[free := 1]"] assms(1)
  show ?thesis
    by (simp add: nullspace_vector_def)
qed

lemma nullspace_vector_other:
  assumes "col < n" and "col \<notin> set pivots" and "col \<noteq> free"
  shows "nullspace_vector R pivots n free ! col = 0"
proof -
  have "col \<notin> snd ` set (zip [0..<length pivots] pivots)"
    using assms(2) by (auto dest: set_zip_rightD)
  from back_substitution_other [OF this,
      where R = R and free = free and v = "(replicate n 0)[free := 1]"] assms(1,3)
  show ?thesis
    by (simp add: nullspace_vector_def)
qed

lemma nullspace_vector_pivot:
  assumes "distinct pivots" and "i < length pivots" and "pivots ! i < n"
    and "free \<notin> set pivots"
  shows "nullspace_vector R pivots n free ! (pivots ! i) = - R ! i ! free"
proof -
  have "(i, pivots ! i) \<in> set (zip [0..<length pivots] pivots)"
    using assms(2) by (auto simp: in_set_zip intro!: exI [of _ i])
  moreover have "distinct (map snd (zip [0..<length pivots] pivots))"
    using assms(1) by simp
  moreover have "pivots ! i \<noteq> free"
    using assms(2,4) by (metis nth_mem)
  ultimately show ?thesis
    using back_substitution_pivot [of "zip [0..<length pivots] pivots" i "pivots ! i"
        "(replicate n 0)[free := 1]" R free] assms(3)
    by (simp add: nullspace_vector_def)
qed

subsection \<open>The nullspace vectors solve the system\<close>

lemma dot_sum:
  assumes "length a = length b"
  shows "dot a b = (\<Sum>i<length a. a ! i * b ! i)"
  using assms
proof (induction a b rule: list_induct2)
  case Nil
  then show ?case by simp
next
  case (Cons x xs y ys)
  then show ?case
    by (simp add: sum.lessThan_Suc_shift del: sum.lessThan_Suc)
qed

lemma sum_over_pivots:
  assumes "distinct pivots"
  shows "(\<Sum>col \<in> set pivots. h col) = (\<Sum>i<length pivots. h (pivots ! i))"
proof -
  have "inj_on (nth pivots) {..<length pivots}"
    using assms by (auto simp: inj_on_def nth_eq_iff_index_eq)
  moreover have "nth pivots ` {..<length pivots} = set pivots"
    by (auto simp: set_conv_nth)
  ultimately show ?thesis
    using sum.reindex [of "nth pivots" "{..<length pivots}" h] by (simp add: comp_def)
qed

lemma reduced_row_dot:
  assumes red: "reduced c c upper rest pivots"
    and free: "free < c" "free \<notin> set pivots"
    and k: "k < length upper"
  shows "dot (upper ! k) (nullspace_vector (upper @ rest) pivots c free) = 0"
proof -
  let ?v = "nullspace_vector (upper @ rest) pivots c free"
  let ?r = "upper ! k"
  from red have len_upper: "length upper = length pivots"
    and lens: "\<And>r. r \<in> set upper \<union> set rest \<Longrightarrow> length r = c"
    and dist: "distinct pivots"
    and below: "\<And>p. p \<in> set pivots \<Longrightarrow> p < c"
    and unit: "\<And>k i. k < length upper \<Longrightarrow> i < length pivots \<Longrightarrow>
        upper ! k ! (pivots ! i) = (if k = i then 1 else 0)"
    by (auto simp: reduced_def)
  have lenr: "length ?r = c"
    using lens k by simp
  have pivot_entry: "?v ! (pivots ! i) = - upper ! i ! free" if "i < length pivots" for i
    using nullspace_vector_pivot [OF dist that _ free(2), of c "upper @ rest"]
      below that len_upper by (simp add: nth_append)
  have "dot ?r ?v = (\<Sum>col<c. ?r ! col * ?v ! col)"
    using dot_sum [of ?r ?v] lenr by simp
  also have "\<dots> = ?r ! free * ?v ! free + (\<Sum>col \<in> {..<c} - {free}. ?r ! col * ?v ! col)"
    using free(1) by (simp add: sum.remove)
  also have "(\<Sum>col \<in> {..<c} - {free}. ?r ! col * ?v ! col)
      = (\<Sum>col \<in> set pivots. ?r ! col * ?v ! col)"
  proof (rule sum.mono_neutral_right)
    show "finite ({..<c} - {free})" by simp
    show "set pivots \<subseteq> {..<c} - {free}"
      using below free(2) by auto
    show "\<forall>col \<in> {..<c} - {free} - set pivots. ?r ! col * ?v ! col = 0"
      using nullspace_vector_other [of _ c pivots free "upper @ rest"] by auto
  qed
  also have "\<dots> = (\<Sum>i<length pivots. ?r ! (pivots ! i) * ?v ! (pivots ! i))"
    by (rule sum_over_pivots [OF dist])
  also have "\<dots> = (\<Sum>i<length pivots. (if k = i then 1 else 0) * (- upper ! i ! free))"
    using unit [OF k] pivot_entry by simp
  also have "\<dots> = (\<Sum>i<length pivots. if i = k then - upper ! k ! free else 0)"
    by (rule sum.cong) auto
  also have "\<dots> = - ?r ! free"
    using k len_upper by simp
  finally show ?thesis
    using nullspace_vector_free [OF free, of "upper @ rest"] by simp
qed

lemma zero_row_dot:
  assumes "length r = length v" and "\<And>col. col < length r \<Longrightarrow> r ! col = 0"
  shows "dot r v = 0"
  using dot_sum [OF assms(1)] assms(2) by simp

lemma rref_reduced:
  assumes "uniform M"
  shows "\<exists>upper rest. rref M = (upper @ rest, snd (rref M)) \<and>
     reduced (cols M) (cols M) upper rest (snd (rref M))"
proof -
  have "reduced (cols M) 0 [] M []"
    using assms by (simp add: reduced_def uniform_def list_all_iff)
  from rref_from_reduced [OF this, of "cols M"] obtain upper rest pivots
    where "rref_from (cols M) 0 [] M [] = (upper @ rest, pivots)"
      and "reduced (cols M) (cols M) upper rest pivots"
    by auto
  then have "rref M = (upper @ rest, snd (rref M)) \<and>
      reduced (cols M) (cols M) upper rest (snd (rref M))"
    by (simp add: rref_def)
  then show ?thesis
    by blast
qed

lemma nullspace_annihilated:
  assumes uni: "uniform M" and v: "v \<in> set (nullspace M)"
  shows "annihilated M v \<and> length v = cols M"
proof -
  let ?c = "cols M"
  from rref_reduced [OF uni] obtain upper rest
    where rr: "rref M = (upper @ rest, snd (rref M))"
      and red: "reduced ?c ?c upper rest (snd (rref M))"
    by blast
  let ?pv = "snd (rref M)"
  have R: "fst (rref M) = upper @ rest"
    using rr by (metis fst_conv)
  have "nullspace M = map (nullspace_vector (upper @ rest) ?pv ?c)
      (filter (\<lambda>i. i \<notin> set ?pv) [0..<?c])"
    by (simp add: nullspace_def case_prod_beta R)
  with v obtain free where free: "free < ?c" "free \<notin> set ?pv"
    and v_def: "v = nullspace_vector (upper @ rest) ?pv ?c free"
    by auto
  have len: "length v = ?c"
    by (simp add: v_def)
  from red have lens: "\<And>r. r \<in> set upper \<union> set rest \<Longrightarrow> length r = ?c"
    and zero: "\<And>r col. r \<in> set rest \<Longrightarrow> col < ?c \<Longrightarrow> r ! col = 0"
    by (auto simp: reduced_def)
  have "dot r v = 0" if "r \<in> set upper" for r
  proof -
    from that obtain k where "k < length upper" "r = upper ! k"
      by (auto simp: in_set_conv_nth)
    with reduced_row_dot [OF red free this(1)] show ?thesis
      by (simp add: v_def)
  qed
  moreover have "dot r v = 0" if "r \<in> set rest" for r
    by (rule zero_row_dot) (use that lens zero len in auto)
  ultimately have "annihilated (upper @ rest) v"
    by (auto simp: annihilated_def list_all_iff)
  moreover have "annihilated (fst (rref M)) v \<longleftrightarrow> annihilated ([] @ M) v"
    unfolding rref_def
    by (rule rref_from_annihilated) (use uni len in \<open>auto simp: uniform_def list_all_iff\<close>)
  ultimately show ?thesis
    using rr len by (metis append_Nil fst_conv)
qed

subsection \<open>Rational vectors as a vector space\<close>

lemma vector_space_scaleq: "vector_space scaleq"
  unfolding vector_space_def by (transfer; simp add: fun_eq_iff algebra_simps)+

lemma module_scaleq: "module scaleq"
  unfolding module_def by (transfer; simp add: fun_eq_iff algebra_simps)+

lemmas qspan_base = module.span_base [OF module_scaleq]
  and qspan_zero = module.span_zero [OF module_scaleq]
  and qspan_add = module.span_add [OF module_scaleq]
  and qspan_diff = module.span_diff [OF module_scaleq]
  and qspan_scale = module.span_scale [OF module_scaleq]
  and qspan_sum = module.span_sum [OF module_scaleq]
  and qspan_mono = module.span_mono [OF module_scaleq]
  and qspan_eq = module.span_eq [OF module_scaleq]
  and qspan_induct = module.span_induct_alt [OF module_scaleq]
  and qspan_insert_eq = module.eq_span_insert_eq [OF module_scaleq]
  and qspan_redundant = vector_space.span_redundant [OF vector_space_scaleq]
  and qspan_insert_0 = vector_space.span_insert_0 [OF vector_space_scaleq]
  and qindependent_empty = module.independent_empty [OF module_scaleq]
  and qindependent_insert = vector_space.independent_insert [OF vector_space_scaleq]
  and qindependent_if_scalars_zero =
    vector_space.independent_if_scalars_zero [OF vector_space_scaleq]
  and qdim_eq_card = vector_space.dim_eq_card_independent [OF vector_space_scaleq]
  and qspan_eq_dim = vector_space.span_eq_dim [OF vector_space_scaleq]
  and qdim_le_card = vector_space.dim_le_card [OF vector_space_scaleq]

lemma qvec_eqI: "(\<And>i. coord a i = coord b i) \<Longrightarrow> a = b"
  by transfer (simp add: fun_eq_iff)

lemma coord_zero [simp]: "coord 0 i = 0"
  by transfer simp

lemma coord_add [simp]: "coord (a + b) i = coord a i + coord b i"
  by transfer simp

lemma coord_diff [simp]: "coord (a - b) i = coord a i - coord b i"
  by transfer simp

lemma coord_scale [simp]: "coord (scaleq c a) i = c * coord a i"
  by transfer simp

lemma coord_sum [simp]: "coord (sum g A) i = (\<Sum>a \<in> A. coord (g a) i)"
  by (induction A rule: infinite_finite_induct) simp_all

lemma coord_vec: "coord (vec xs) i = (if i < length xs then xs ! i else 0)"
  by transfer simp

lemma vec_diff: "length a = length b \<Longrightarrow> vec (map2 (-) a b) = vec a - vec b"
  by (rule qvec_eqI) (simp add: coord_vec)

lemma vec_scale: "vec (map (\<lambda>x. x * c) b) = scaleq c (vec b)"
  by (rule qvec_eqI) (simp add: coord_vec)

lemma vec_inj: "length a = length b \<Longrightarrow> vec a = vec b \<Longrightarrow> a = b"
proof (rule nth_equalityI)
  fix i
  assume "length a = length b" and "vec a = vec b" and "i < length a"
  then show "a ! i = b ! i"
    using coord_vec [of a i] coord_vec [of b i] by simp
qed

lemma vec_zero_iff: "vec v = 0 \<longleftrightarrow> is_zero_matrix v"
proof
  assume "vec v = 0"
  then have "coord (vec v) i = 0" for i
    by simp
  then have "v ! i = 0" if "i < length v" for i
    using that coord_vec [of v i] by simp
  then show "is_zero_matrix v"
    by (auto simp: is_zero_matrix_def list_all_iff in_set_conv_nth)
next
  assume "is_zero_matrix v"
  then have "v ! i = 0" if "i < length v" for i
    using that by (simp add: is_zero_matrix_def list_all_iff)
  then show "vec v = 0"
    by (intro qvec_eqI) (simp add: coord_vec)
qed

subsection \<open>The nullspace vectors form a basis of the solutions\<close>

lemma nullspace_kernel_vectors: "nullspace M = map (kernel_vector M) (free_columns M)"
  by (simp add: nullspace_def kernel_vector_def free_columns_def case_prod_beta)

lemma free_columns_iff: "f \<in> set (free_columns M) \<longleftrightarrow> f < cols M \<and> f \<notin> set (snd (rref M))"
  by (auto simp: free_columns_def)

lemma distinct_free_columns: "distinct (free_columns M)"
  by (simp add: free_columns_def)

lemma length_kernel_vector [simp]: "length (kernel_vector M f) = cols M"
  by (simp add: kernel_vector_def)

lemma kernel_vector_free:
  assumes "f \<in> set (free_columns M)" and "g \<in> set (free_columns M)"
  shows "kernel_vector M f ! g = (if g = f then 1 else 0)"
  using assms nullspace_vector_free [of f "cols M" "snd (rref M)" "fst (rref M)"]
    nullspace_vector_other [of g "cols M" "snd (rref M)" f "fst (rref M)"]
  by (auto simp: kernel_vector_def free_columns_iff)

lemma coord_kernel_vector_free:
  assumes "f \<in> set (free_columns M)" and "g \<in> set (free_columns M)"
  shows "coord (vec (kernel_vector M f)) g = (if g = f then 1 else 0)"
  using kernel_vector_free [OF assms] assms(2) by (simp add: coord_vec free_columns_iff)

lemma vec_kernel_vector_inj:
  "inj_on (\<lambda>f. vec (kernel_vector M f)) (set (free_columns M))"
proof (rule inj_onI)
  fix f g
  assume f: "f \<in> set (free_columns M)" and g: "g \<in> set (free_columns M)"
    and eq: "vec (kernel_vector M f) = vec (kernel_vector M g)"
  from coord_kernel_vector_free [OF f f] coord_kernel_vector_free [OF g f] eq
  show "f = g"
    by (simp split: if_splits)
qed

lemma distinct_vec_nullspace: "distinct (map vec (nullspace M))"
  using vec_kernel_vector_inj [of M] distinct_free_columns [of M]
  by (simp add: nullspace_kernel_vectors distinct_map comp_def)

lemma nullspace_independent: "qindependent (vec ` set (nullspace M))"
proof (rule qindependent_if_scalars_zero)
  let ?S = "vec ` set (nullspace M)"
  show "finite ?S" by simp
  fix u x
  assume sum0: "(\<Sum>y \<in> ?S. scaleq (u y) y) = 0" and x: "x \<in> ?S"
  from x obtain f where f: "f \<in> set (free_columns M)" and x_def: "x = vec (kernel_vector M f)"
    by (auto simp: nullspace_kernel_vectors)
  have entry: "coord y f = (if y = x then 1 else 0)" if "y \<in> ?S" for y
  proof -
    from that obtain g where g: "g \<in> set (free_columns M)"
      and y_def: "y = vec (kernel_vector M g)"
      by (auto simp: nullspace_kernel_vectors)
    have "y = x \<longleftrightarrow> g = f"
      using inj_onD [OF vec_kernel_vector_inj [of M], of g f] g f by (auto simp: x_def y_def)
    with coord_kernel_vector_free [OF g f] show ?thesis
      by (auto simp: y_def)
  qed
  have "0 = coord (\<Sum>y \<in> ?S. scaleq (u y) y) f"
    by (simp only: sum0 coord_zero)
  also have "\<dots> = (\<Sum>y \<in> ?S. u y * coord y f)"
    by simp
  also have "\<dots> = (\<Sum>y \<in> ?S. if y = x then u y else 0)"
    by (rule sum.cong) (simp_all add: entry)
  also have "\<dots> = u x"
    using x by (simp add: sum.delta)
  finally show "u x = 0"
    by simp
qed

lemma card_vec_nullspace: "card (vec ` set (nullspace M)) = length (nullspace M)"
  using distinct_card [OF distinct_vec_nullspace, of M] by simp

lemma nullspace_spans:
  assumes uni: "uniform M" and len: "length x = cols M" and sol: "annihilated M x"
  shows "vec x \<in> qspan (vec ` set (nullspace M))"
proof -
  let ?c = "cols M"
  let ?pv = "snd (rref M)"
  let ?F = "set (free_columns M)"
  from rref_reduced [OF uni] obtain upper rest
    where rr: "rref M = (upper @ rest, ?pv)" and red: "reduced ?c ?c upper rest ?pv"
    by blast
  have R: "fst (rref M) = upper @ rest"
    using rr by (metis fst_conv)
  from red have len_upper: "length upper = length ?pv"
    and lens: "\<And>r. r \<in> set upper \<union> set rest \<Longrightarrow> length r = ?c"
    and dist: "distinct ?pv"
    and below: "\<And>p. p \<in> set ?pv \<Longrightarrow> p < ?c"
    and unit: "\<And>k i. k < length upper \<Longrightarrow> i < length ?pv \<Longrightarrow>
        upper ! k ! (?pv ! i) = (if k = i then 1 else 0)"
    by (auto simp: reduced_def)
  have "annihilated (fst (rref M)) x \<longleftrightarrow> annihilated ([] @ M) x"
    unfolding rref_def
    by (rule rref_from_annihilated) (use uni len in \<open>auto simp: uniform_def list_all_iff\<close>)
  with sol R have solved: "dot r x = 0" if "r \<in> set upper" for r
    using that by (auto simp: annihilated_def list_all_iff)
  have split: "{..<?c} = set ?pv \<union> ?F" and disjoint: "set ?pv \<inter> ?F = {}"
    using below by (auto simp: free_columns_iff)
  have pivot_value: "x ! (?pv ! k) = - (\<Sum>f \<in> ?F. upper ! k ! f * x ! f)"
    if k: "k < length ?pv" for k
  proof -
    have row: "upper ! k \<in> set upper"
      using k len_upper by simp
    then have "length (upper ! k) = length x"
      using lens len by simp
    from dot_sum [OF this] solved [OF row] lens row
    have "0 = (\<Sum>col<?c. upper ! k ! col * x ! col)"
      by simp
    also have "\<dots> = (\<Sum>col \<in> set ?pv. upper ! k ! col * x ! col)
        + (\<Sum>f \<in> ?F. upper ! k ! f * x ! f)"
      unfolding split by (rule sum.union_disjoint) (simp_all add: disjoint)
    also have "(\<Sum>col \<in> set ?pv. upper ! k ! col * x ! col)
        = (\<Sum>i<length ?pv. upper ! k ! (?pv ! i) * x ! (?pv ! i))"
      by (rule sum_over_pivots [OF dist])
    also have "\<dots> = (\<Sum>i<length ?pv. if i = k then x ! (?pv ! k) else 0)"
      using unit [of k] k len_upper by (intro sum.cong) auto
    also have "\<dots> = x ! (?pv ! k)"
      using k by simp
    finally show ?thesis
      by simp
  qed
  have pivot_entry: "kernel_vector M f ! (?pv ! k) = - upper ! k ! f"
    if "f \<in> ?F" and "k < length ?pv" for f k
    using nullspace_vector_pivot [OF dist that(2), of ?c f "fst (rref M)"]
      below that len_upper
    by (simp add: kernel_vector_def R nth_append free_columns_iff)
  have "vec x = (\<Sum>f \<in> ?F. scaleq (x ! f) (vec (kernel_vector M f)))"
  proof (rule qvec_eqI)
    fix col
    have rhs: "coord (\<Sum>f \<in> ?F. scaleq (x ! f) (vec (kernel_vector M f))) col
        = (\<Sum>f \<in> ?F. x ! f * (if col < ?c then kernel_vector M f ! col else 0))"
      by (simp add: coord_vec)
    consider (outside) "\<not> col < ?c" | (free) "col \<in> ?F" | (pivot) "col \<in> set ?pv"
      using split by auto
    then show "coord (vec x) col
        = coord (\<Sum>f \<in> ?F. scaleq (x ! f) (vec (kernel_vector M f))) col"
    proof cases
      case outside
      then show ?thesis
        unfolding rhs by (simp add: coord_vec len)
    next
      case free
      then have col: "col < ?c"
        by (simp add: free_columns_iff)
      have "(\<Sum>f \<in> ?F. x ! f * (if col < ?c then kernel_vector M f ! col else 0))
          = (\<Sum>f \<in> ?F. if f = col then x ! col else 0)"
        using kernel_vector_free [OF _ free] col by (intro sum.cong) auto
      also have "\<dots> = x ! col"
        using free by simp
      finally show ?thesis
        unfolding rhs using col by (simp add: coord_vec len)
    next
      case pivot
      then obtain k where k: "k < length ?pv" and col_def: "col = ?pv ! k"
        by (auto simp: in_set_conv_nth)
      have col: "col < ?c"
        using below pivot by simp
      have "(\<Sum>f \<in> ?F. x ! f * (if col < ?c then kernel_vector M f ! col else 0))
          = (\<Sum>f \<in> ?F. - (upper ! k ! f * x ! f))"
        using pivot_entry [OF _ k] col by (intro sum.cong) (auto simp: col_def)
      also have "\<dots> = x ! col"
        using pivot_value [OF k] by (simp add: sum_negf col_def)
      finally show ?thesis
        unfolding rhs using col by (simp add: coord_vec len)
    qed
  qed
  moreover have "(\<Sum>f \<in> ?F. scaleq (x ! f) (vec (kernel_vector M f)))
      \<in> qspan (vec ` set (nullspace M))"
    by (intro qspan_sum qspan_scale qspan_base) (simp add: nullspace_kernel_vectors)
  ultimately show ?thesis
    by simp
qed

subsection \<open>Gram-Schmidt keeps the span and counts its dimension\<close>

lemma dot_commute: "dot a b = dot b a"
  by (induction a b rule: list_induct2') (simp_all add: mult.commute)

lemma dot_diff_left:
  "length a = length b \<Longrightarrow> dot (map2 (-) a b) x = dot a x - dot b x"
proof (induction a b arbitrary: x rule: list_induct2)
  case Nil
  then show ?case by simp
next
  case (Cons y ys z zs)
  then show ?case by (cases x) (simp_all add: algebra_simps)
qed

lemma dot_scale_left: "dot (map (\<lambda>y. y * c) b) x = c * dot b x"
  by (induction b x rule: list_induct2') (simp_all add: algebra_simps)

lemma dot_self_nonneg: "0 \<le> dot b b"
  by (induction b) simp_all

lemma dot_self_zero_iff: "dot b b = 0 \<longleftrightarrow> is_zero_matrix b"
proof (induction b)
  case Nil
  then show ?case by (simp add: is_zero_matrix_def)
next
  case (Cons x xs)
  have "x * x + dot xs xs = 0 \<longleftrightarrow> x * x = 0 \<and> dot xs xs = 0"
    using dot_self_nonneg [of xs] by (intro add_nonneg_eq_0_iff) simp_all
  with Cons show ?case
    by (simp add: is_zero_matrix_def)
qed

lemma dot_vec:
  assumes "length a = length b"
  shows "dot a b = (\<Sum>i<length b. coord (vec a) i * b ! i)"
  using dot_sum [OF assms] assms by (simp add: coord_vec)

lemma project_scale: "project v b = map (\<lambda>x. x * projection_coefficient v b) b"
  by (simp add: project_def projection_coefficient_def)

lemma perp_fold_length:
  assumes "length acc = c" and "\<And>b. b \<in> set bs \<Longrightarrow> length b = c"
  shows "length (foldl (\<lambda>acc b. map2 (-) acc (project v b)) acc bs) = c"
  using assms by (induction bs arbitrary: acc) (simp_all add: project_def)

lemma perp_fold_dot:
  assumes "length acc = c" and "\<And>b. b \<in> set bs \<Longrightarrow> length b = c"
  shows "dot (foldl (\<lambda>acc b. map2 (-) acc (project v b)) acc bs) x
     = dot acc x - (\<Sum>b\<leftarrow>bs. projection_coefficient v b * dot b x)"
  using assms
proof (induction bs arbitrary: acc)
  case Nil
  then show ?case by simp
next
  case (Cons b bs)
  let ?acc = "map2 (-) acc (project v b)"
  have len: "length ?acc = c"
    using Cons.prems by (simp add: project_def)
  have "dot ?acc x = dot acc x - projection_coefficient v b * dot b x"
    using Cons.prems by (simp add: dot_diff_left project_scale dot_scale_left)
  with Cons.IH [OF len] Cons.prems(2) show ?case
    by simp
qed

lemma perp_fold_span:
  assumes "length acc = c" and "\<And>b. b \<in> set bs \<Longrightarrow> length b = c"
  shows "vec acc - vec (foldl (\<lambda>acc b. map2 (-) acc (project v b)) acc bs)
     \<in> qspan (vec ` set bs)"
  using assms
proof (induction bs arbitrary: acc)
  case Nil
  then show ?case by (simp add: qspan_zero)
next
  case (Cons b bs)
  let ?acc = "map2 (-) acc (project v b)"
  let ?end = "foldl (\<lambda>acc b. map2 (-) acc (project v b)) ?acc bs"
  have len: "length ?acc = c"
    using Cons.prems by (simp add: project_def)
  have "vec ?acc = vec acc - scaleq (projection_coefficient v b) (vec b)"
    using Cons.prems by (simp add: vec_diff project_scale vec_scale)
  then have "vec acc - vec ?acc = scaleq (projection_coefficient v b) (vec b)"
    by simp
  then have first: "vec acc - vec ?acc \<in> qspan (vec ` set (b # bs))"
    by (simp add: qspan_scale qspan_base)
  have "vec ?acc - vec ?end \<in> qspan (vec ` set bs)"
    using Cons.IH [OF len] Cons.prems(2) by simp
  then have "vec ?acc - vec ?end \<in> qspan (vec ` set (b # bs))"
    using qspan_mono [of "vec ` set bs" "vec ` set (b # bs)"] by auto
  from qspan_add [OF first this] show ?case
    by simp
qed


lemma perp_to_subspace_length:
  assumes "length v = c" and "\<And>b. b \<in> set bs \<Longrightarrow> length b = c"
  shows "length (perp_to_subspace v bs) = c"
  unfolding perp_to_subspace_def using assms by (rule perp_fold_length)

lemma perp_to_subspace_span:
  assumes "length v = c" and "\<And>b. b \<in> set bs \<Longrightarrow> length b = c"
  shows "vec v - vec (perp_to_subspace v bs) \<in> qspan (vec ` set bs)"
  unfolding perp_to_subspace_def using assms by (rule perp_fold_span)

lemma sum_list_single:
  assumes "distinct bs" and "b \<in> set bs" and "\<And>b'. b' \<in> set bs \<Longrightarrow> b' \<noteq> b \<Longrightarrow> g b' = 0"
  shows "(\<Sum>b'\<leftarrow>bs. g b') = (g b :: rat)"
proof -
  have "(\<Sum>b'\<leftarrow>bs. g b') = (\<Sum>b' \<in> set bs. g b')"
    using assms(1) by (rule sum_list_distinct_conv_sum_set)
  also have "\<dots> = g b + (\<Sum>b' \<in> set bs - {b}. g b')"
    using assms(2) by (simp add: sum.remove)
  also have "(\<Sum>b' \<in> set bs - {b}. g b') = 0"
    using assms(3) by (intro sum.neutral) auto
  finally show ?thesis by simp
qed

lemma perp_to_subspace_orthogonal:
  assumes len: "length v = c" "\<And>b. b \<in> set bs \<Longrightarrow> length b = c"
    and dist: "distinct bs"
    and orth: "\<And>b b'. b \<in> set bs \<Longrightarrow> b' \<in> set bs \<Longrightarrow> b \<noteq> b' \<Longrightarrow> dot b b' = 0"
    and nz: "\<And>b. b \<in> set bs \<Longrightarrow> \<not> is_zero_matrix b"
    and b: "b \<in> set bs"
  shows "dot (perp_to_subspace v bs) b = 0"
proof -
  have "dot (perp_to_subspace v bs) b
      = dot v b - (\<Sum>b'\<leftarrow>bs. projection_coefficient v b' * dot b' b)"
    unfolding perp_to_subspace_def using len by (rule perp_fold_dot)
  also have "(\<Sum>b'\<leftarrow>bs. projection_coefficient v b' * dot b' b)
      = projection_coefficient v b * dot b b"
    using dist b by (rule sum_list_single) (simp add: orth [OF _ b])
  also have "\<dots> = dot v b"
    using nz [OF b] by (simp add: projection_coefficient_def dot_self_zero_iff)
  finally show ?thesis by simp
qed

lemma orthogonal_not_in_span:
  assumes ret: "\<And>b. b \<in> set ret \<Longrightarrow> length b = c \<and> dot b p = 0"
    and p: "length p = c" "\<not> is_zero_matrix p"
  shows "vec p \<notin> qspan (vec ` set ret)"
proof
  assume mem: "vec p \<in> qspan (vec ` set ret)"
  have "(\<Sum>i<c. coord y i * p ! i) = 0" if "y \<in> qspan (vec ` set ret)" for y
    using that
  proof (rule qspan_induct)
    show "(\<Sum>i<c. coord 0 i * p ! i) = 0"
      by simp
  next
    fix a x y
    assume "x \<in> vec ` set ret" and IH: "(\<Sum>i<c. coord y i * p ! i) = 0"
    then obtain b where b: "b \<in> set ret" and x: "x = vec b"
      by auto
    from ret [OF b] p(1) have "dot b p = (\<Sum>i<c. coord (vec b) i * p ! i)"
      using dot_vec [of b p] by simp
    with ret [OF b] have "(\<Sum>i<c. coord x i * p ! i) = 0"
      by (simp add: x)
    moreover have "(\<Sum>i<c. coord (scaleq a x + y) i * p ! i)
        = a * (\<Sum>i<c. coord x i * p ! i) + (\<Sum>i<c. coord y i * p ! i)"
      by (simp add: algebra_simps sum.distrib sum_distrib_left)
    ultimately show "(\<Sum>i<c. coord (scaleq a x + y) i * p ! i) = 0"
      using IH by simp
  qed
  from this [OF mem] have "dot p p = 0"
    using dot_vec [of p p] p(1) by simp
  with p(2) show False
    by (simp add: dot_self_zero_iff)
qed

lemma gs_invariant_Nil: "gs_invariant c []"
  by (simp add: gs_invariant_def qindependent_empty)

lemma gs_step:
  assumes inv: "gs_invariant c ret" and v: "length v = c"
  shows "gs_invariant c (keep_nonzero ret (perp_to_subspace v ret)) \<and>
     qspan (vec ` set (keep_nonzero ret (perp_to_subspace v ret)))
       = qspan (insert (vec v) (vec ` set ret))"
proof -
  let ?perp = "perp_to_subspace v ret"
  let ?S = "vec ` set ret"
  from inv have lens: "\<And>b. b \<in> set ret \<Longrightarrow> length b = c"
    and nz: "\<And>b. b \<in> set ret \<Longrightarrow> \<not> is_zero_matrix b"
    and dist: "distinct ret"
    and orth: "\<And>b b'. b \<in> set ret \<Longrightarrow> b' \<in> set ret \<Longrightarrow> b \<noteq> b' \<Longrightarrow> dot b b' = 0"
    and indep: "qindependent ?S"
    and dist_vec: "distinct (map vec ret)"
    by (auto simp: gs_invariant_def)
  have len_perp: "length ?perp = c"
    using v lens by (rule perp_to_subspace_length)
  have diff: "vec v - vec ?perp \<in> qspan ?S"
    using v lens by (rule perp_to_subspace_span)
  have perp_orth: "dot ?perp b = 0" if "b \<in> set ret" for b
    using v lens dist orth nz that by (rule perp_to_subspace_orthogonal)
  show ?thesis
  proof (cases "is_zero_matrix ?perp")
    case True
    then have "vec ?perp = 0"
      by (simp add: vec_zero_iff)
    with diff have "vec v \<in> qspan ?S"
      by simp
    then have "qspan (insert (vec v) ?S) = qspan ?S"
      by (rule qspan_redundant)
    with True inv show ?thesis
      by (simp add: keep_nonzero_def)
  next
    case False
    have outside: "vec ?perp \<notin> qspan ?S"
      by (rule orthogonal_not_in_span [where c = c])
        (use lens perp_orth len_perp False in \<open>auto simp: dot_commute\<close>)
    then have fresh: "vec ?perp \<notin> ?S"
      using qspan_base [of "vec ?perp" ?S] by blast
    then have new: "?perp \<notin> set ret"
      by auto
    have "qindependent (insert (vec ?perp) ?S)"
      using indep outside fresh by (simp add: qindependent_insert)
    moreover have "dot b b' = 0"
      if "b \<in> set (ret @ [?perp])" "b' \<in> set (ret @ [?perp])" "b \<noteq> b'" for b b'
      using that orth perp_orth by (auto simp: dot_commute)
    ultimately have "gs_invariant c (ret @ [?perp])"
      using lens nz dist dist_vec len_perp False fresh new
      by (auto simp: gs_invariant_def)
    moreover have "qspan (insert (vec ?perp) ?S) = qspan (insert (vec v) ?S)"
      using qspan_insert_eq [OF diff] by simp
    ultimately show ?thesis
      using False by (simp add: keep_nonzero_def)
  qed
qed

lemma qspan_union_cong:
  assumes "qspan A = qspan B"
  shows "qspan (A \<union> C) = qspan (B \<union> C)"
proof -
  have "A \<subseteq> qspan (B \<union> C)"
    using module.span_superset [OF module_scaleq, of A] assms
      qspan_mono [of B "B \<union> C"] by auto
  moreover have "B \<subseteq> qspan (A \<union> C)"
    using module.span_superset [OF module_scaleq, of B] assms
      qspan_mono [of A "A \<union> C"] by auto
  moreover have "C \<subseteq> qspan (A \<union> C)" "C \<subseteq> qspan (B \<union> C)"
    using module.span_superset [OF module_scaleq, of "A \<union> C"]
      module.span_superset [OF module_scaleq, of "B \<union> C"] by auto
  ultimately show ?thesis
    by (simp add: qspan_eq)
qed

lemma gs_loop:
  assumes "gs_invariant c ret" and "\<And>v. v \<in> set vs \<Longrightarrow> length v = c"
  shows "gs_invariant c (gram_schmidt ret vs) \<and>
     qspan (vec ` set (gram_schmidt ret vs)) = qspan (vec ` (set ret \<union> set vs))"
  using assms
proof (induction vs arbitrary: ret)
  case Nil
  then show ?case by simp
next
  case (Cons v vs)
  let ?ret = "keep_nonzero ret (perp_to_subspace v ret)"
  from gs_step [OF Cons.prems(1), of v] Cons.prems(2)
  have inv: "gs_invariant c ?ret"
    and span: "qspan (vec ` set ?ret) = qspan (insert (vec v) (vec ` set ret))"
    by simp_all
  from Cons.IH [OF inv] Cons.prems(2)
  have inv': "gs_invariant c (gram_schmidt ?ret vs)"
    and span': "qspan (vec ` set (gram_schmidt ?ret vs)) = qspan (vec ` (set ?ret \<union> set vs))"
    by simp_all
  have "qspan (vec ` set ?ret \<union> vec ` set vs)
      = qspan (insert (vec v) (vec ` set ret) \<union> vec ` set vs)"
    using span by (rule qspan_union_cong)
  then have "qspan (vec ` (set ?ret \<union> set vs)) = qspan (vec ` (set ret \<union> set (v # vs)))"
    by (simp add: image_Un Un_commute insert_commute)
  with inv' span' show ?case
    by simp
qed

lemma length_orthogonalize:
  assumes "\<And>v. v \<in> set vs \<Longrightarrow> length v = c"
  shows "length (orthogonalize vs) = qdim (vec ` set vs)"
proof -
  let ?kept = "dropWhile is_zero_matrix vs"
  let ?ret = "gram_schmidt [] ?kept"
  have "length v = c" if "v \<in> set ?kept" for v
    using that assms set_dropWhileD by fastforce
  from gs_loop [OF gs_invariant_Nil this]
  have inv: "gs_invariant c ?ret" and span: "qspan (vec ` set ?ret) = qspan (vec ` set ?kept)"
    by simp_all
  have "vec ` set vs \<subseteq> insert 0 (vec ` set ?kept)"
  proof
    fix y
    assume "y \<in> vec ` set vs"
    then obtain v where v: "v \<in> set vs" and y: "y = vec v"
      by auto
    from v have "v \<in> set (takeWhile is_zero_matrix vs) \<or> v \<in> set ?kept"
      by (metis Un_iff set_append takeWhile_dropWhile_id)
    then show "y \<in> insert 0 (vec ` set ?kept)"
      using y by (auto simp: vec_zero_iff dest: set_takeWhileD)
  qed
  moreover have "insert 0 (vec ` set ?kept) \<subseteq> qspan (vec ` set ?kept)"
    using module.span_superset [OF module_scaleq, of "vec ` set ?kept"]
      qspan_zero [of "vec ` set ?kept"] by blast
  ultimately have "vec ` set vs \<subseteq> qspan (vec ` set ?kept)"
    by (rule subset_trans)
  moreover have "vec ` set ?kept \<subseteq> qspan (vec ` set vs)"
    using module.span_superset [OF module_scaleq, of "vec ` set vs"] set_dropWhileD
    by fastforce
  ultimately have "qspan (vec ` set ?kept) = qspan (vec ` set vs)"
    by (simp add: qspan_eq)
  with span have "qdim (vec ` set ?ret) = qdim (vec ` set vs)"
    by (intro qspan_eq_dim) simp
  moreover from inv have "qdim (vec ` set ?ret) = card (vec ` set ?ret)"
    by (intro qdim_eq_card) (simp add: gs_invariant_def)
  moreover from inv have "card (vec ` set ?ret) = length ?ret"
    using distinct_card [of "map vec ?ret"] by (simp add: gs_invariant_def)
  ultimately show ?thesis
    by (simp add: orthogonalize_def)
qed

lemma length_orthogonalize_basis:
  assumes lens: "\<And>v. v \<in> set T \<union> set A \<Longrightarrow> length v = c"
    and indep: "qindependent (vec ` set A)" and dist: "distinct (map vec A)"
    and sub: "vec ` set T \<subseteq> qspan (vec ` set A)"
  shows "length (orthogonalize (T @ A)) = length A"
proof -
  have "length (orthogonalize (T @ A)) = qdim (vec ` set (T @ A))"
    by (rule length_orthogonalize [where c = c]) (use lens in auto)
  also have "qspan (vec ` set (T @ A)) = qspan (vec ` set A)"
    using sub module.span_superset [OF module_scaleq, of "vec ` set A"]
      module.span_superset [OF module_scaleq, of "vec ` set (T @ A)"]
    by (auto simp: qspan_eq image_Un)
  then have "qdim (vec ` set (T @ A)) = qdim (vec ` set A)"
    by (rule qspan_eq_dim)
  also have "\<dots> = card (vec ` set A)"
    using indep by (rule qdim_eq_card)
  also have "\<dots> = length A"
    using distinct_card [OF dist] by simp
  finally show ?thesis .
qed

subsection \<open>Rows of the matrix and of the complete graph's matrix\<close>

lemma uniformI:
  assumes "\<And>r. r \<in> set M \<Longrightarrow> length r = c"
  shows "uniform M"
  using assms by (cases M) (auto simp: uniform_def cols_def list_all_iff)

lemma default_matrix_rows:
  assumes "r \<in> set (default_matrix F)"
  shows "\<exists>e \<in> set (edges (fw_graph F)). r = edge_row F (sort (vertices (fw_graph F))) e"
  using assms by (auto simp: default_matrix_def split: if_splits)

lemma default_matrix_uniform:
  assumes wf: "well_formed F"
  shows "uniform (default_matrix F)"
proof (rule uniformI)
  fix r
  assume "r \<in> set (default_matrix F)"
  from default_matrix_rows [OF this] edge_row_length [OF wf]
  show "length r = nat (dimension F) * length (sort (vertices (fw_graph F)))"
    by auto
qed

lemma nullspace_length: "x \<in> set (nullspace M) \<Longrightarrow> length x = cols M"
  by (auto simp: nullspace_kernel_vectors)

lemma nullspace_Nil [simp]: "nullspace [] = []"
  by (simp add: nullspace_def cols_def case_prod_beta)

lemma dot_zero_row:
  assumes "\<And>y. y \<in> set r \<Longrightarrow> y = 0"
  shows "dot r x = 0"
  using assms
proof (induction r arbitrary: x)
  case Nil
  then show ?case by simp
next
  case (Cons a r)
  then show ?case by (cases x) simp_all
qed

lemma map2_minus_swap: "map2 (-) a b = map uminus (map2 (-) b (a :: rat list))"
proof (induction a arbitrary: b)
  case Nil
  then show ?case by simp
next
  case (Cons x a)
  then show ?case by (cases b) simp_all
qed

lemma edge_block_swap:
  assumes "u \<noteq> v"
  shows "edge_block F (v, u) w = edge_block F (u, v) w"
proof -
  have "delta v u w = - delta u v w"
    using assms by (simp add: delta_def)
  then show ?thesis
    by (simp add: edge_block_def map2_minus_swap [of "position F v" "position F u"] comp_def)
qed

lemma edge_row_swap:
  assumes "u \<noteq> v"
  shows "edge_row F order (v, u) = edge_row F order (u, v)"
proof -
  have "edge_block F (v, u) = edge_block F (u, v)"
    using edge_block_swap [OF assms] by (rule ext)
  then show ?thesis
    by (simp add: edge_row_def)
qed

lemma edge_row_loop: "y \<in> set (edge_row F order (u, u)) \<Longrightarrow> y = 0"
  by (auto simp: edge_row_def edge_block_def set_zip)

lemma edge_row_positions:
  assumes "position F' (fst e) = position F (fst e)" and "position F' (snd e) = position F (snd e)"
  shows "edge_row F' order e = edge_row F order e"
proof -
  have "edge_block F' e = edge_block F e"
    using assms by (intro ext) (simp add: edge_block_def)
  then show ?thesis
    by (simp add: edge_row_def)
qed

subsection \<open>The complete-graph framework\<close>

lemma Framework_init_result:
  assumes "Framework_init g r d = Inr F"
  shows "fw_graph F = g"
    and "fw_dim F = (case r of [] \<Rightarrow> d | (_, p) # _ \<Rightarrow> int (len p))"
    and "w \<in> set (vertices g) \<Longrightarrow>
         position F w = (case map_of r w of None \<Rightarrow> [] | Some p \<Rightarrow> coords p)"
proof -
  let ?d = "case r of [] \<Rightarrow> d | (_, p) # _ \<Rightarrow> int (len p)"
  let ?f = "\<lambda>v. (v, Matrix (the (map_of r v)))"
  from assms have check: "check_vertices (vertices g) r ?d = None"
    by (auto simp: Framework_init_def Let_def split: option.splits)
  with assms have F: "F = \<lparr>fw_graph = g, fw_realization = map ?f (vertices g), fw_dim = ?d\<rparr>"
    by (simp add: Framework_init_def Let_def checked_realization)
  show "fw_graph F = g" and "fw_dim F = ?d"
    by (simp_all add: F)
  assume w: "w \<in> set (vertices g)"
  then have "map_of (fw_realization F) w = Some (Matrix (the (map_of r w)))"
    by (simp add: F map_of_map_restrict)
  moreover from check_vertices_member [OF check w] obtain p where "map_of r w = Some p"
    by blast
  ultimately show "position F w = (case map_of r w of None \<Rightarrow> [] | Some p \<Rightarrow> coords p)"
    by (simp add: position_def Matrix_def)
qed

lemma complete_graph_edges_member:
  assumes "0 \<le> u" and "u < v" and "v < int n"
  shows "(u, v) \<in> set (complete_graph_edges n)"
proof -
  have "nat u < n" "nat v \<in> {Suc (nat u)..<n}" "int (nat u) = u" "int (nat v) = v"
    using assms by auto
  then show ?thesis
    unfolding complete_graph_edges_def by (force simp: image_iff)
qed

lemma Graph_init_nodes_set:
  "set (nodes (Graph_init es)) = fst ` set es \<union> snd ` set es"
  by (auto simp: Graph_init_def image_iff)

lemma complete_graph_nodes:
  assumes "complete_graph_edges n \<noteq> []"
  shows "set (nodes (Graph_init (complete_graph_edges n))) = {0..<int n}"
proof
  show "set (nodes (Graph_init (complete_graph_edges n))) \<subseteq> {0..<int n}"
    using complete_graph_edges_bounds [of _ n] by (auto simp: Graph_init_nodes_set)
next
  from assms obtain e where e: "e \<in> set (complete_graph_edges n)"
    by (cases "complete_graph_edges n") auto
  then have two: "1 < int n"
    by (auto simp: complete_graph_edges_def)
  show "{0..<int n} \<subseteq> set (nodes (Graph_init (complete_graph_edges n)))"
  proof
    fix w
    assume w: "w \<in> {0..<int n}"
    show "w \<in> set (nodes (Graph_init (complete_graph_edges n)))"
    proof (cases "w = 0")
      case True
      from complete_graph_edges_member [of 0 1 n] two
      have "(0, 1) \<in> set (complete_graph_edges n)"
        by simp
      then show ?thesis
        unfolding Graph_init_nodes_set True by force
    next
      case False
      with w complete_graph_edges_member [of 0 w n]
      have "(0, w) \<in> set (complete_graph_edges n)"
        by simp
      then show ?thesis
        unfolding Graph_init_nodes_set by force
    qed
  qed
qed

lemma sort_same_set:
  assumes "distinct xs" and "distinct ys" and "set xs = set (ys :: int list)"
  shows "sort xs = sort ys"
  by (rule sorted_distinct_set_unique) (use assms in simp_all)


subsection \<open>The trivial flexes are flexes of the framework\<close>

lemma trivial_flexes_in_kernel:
  assumes wf: "well_formed F"
    and labels: "set (vertices (fw_graph F)) = {0..<int (length (vertices (fw_graph F)))}"
    and FK: "Framework_init (Graph_init (complete_graph_edges (length (vertices (fw_graph F)))))
        (get_realization F) (dimension F) = Inr FK"
    and ne: "edges (fw_graph F) \<noteq> []"
    and x: "x \<in> set (nullspace (default_matrix FK))"
  shows "length x = cols (default_matrix F) \<and> annihilated (default_matrix F) x"
proof -
  let ?n = "length (vertices (fw_graph F))"
  let ?K = "complete_graph_edges ?n"
  let ?g = "Graph_init ?K"
  let ?order = "sort (vertices (fw_graph F))"
  have wfK: "well_formed FK"
    by (rule Framework_init_well_formed [OF FK Graph_init_ok])
  have gK: "fw_graph FK = ?g"
    by (rule Framework_init_result(1) [OF FK])
  have inv: "framework_invariant F"
    using wf by (simp add: well_formed_def)
  have dimK: "dimension FK = dimension F"
    using Framework_init_result(2) [OF FK] first_vector_length [OF inv]
    by (simp add: dimension_def get_realization_def)
  from x have "default_matrix FK \<noteq> []"
    by auto
  then have nonzero: "nat (dimension FK) * length (vertices (fw_graph FK)) \<noteq> 0"
    and MK: "default_matrix FK
      = map (edge_row FK (sort (vertices (fw_graph FK)))) (edge_order_of FK True)"
    and neK: "edges (fw_graph FK) \<noteq> []"
    by (auto simp: default_matrix_def edge_order_of_def split: if_splits)
  from neK have K: "?K \<noteq> []"
    by (simp add: gK Graph_init_def)
  have nodesK: "set (vertices (fw_graph FK)) = set (vertices (fw_graph F))"
    using complete_graph_nodes [OF K] labels by (simp add: gK vertices_def)
  have distK: "distinct (vertices (fw_graph FK))"
    using wfK by (simp add: well_formed_def graph_ok_def vertices_def)
  have dist: "distinct (vertices (fw_graph F))"
    using wf by (simp add: well_formed_def graph_ok_def vertices_def)
  have orderK: "sort (vertices (fw_graph FK)) = ?order"
    using distK dist nodesK by (rule sort_same_set)
  have lengthK: "length (vertices (fw_graph FK)) = ?n"
    using distinct_card [OF distK] distinct_card [OF dist] nodesK by simp
  have colsK: "cols (default_matrix FK) = nat (dimension F) * ?n"
    using default_matrix_cols [OF wfK neK] by (simp add: dimK lengthK)
  have colsM: "cols (default_matrix F) = nat (dimension F) * ?n"
    by (rule default_matrix_cols [OF wf ne])
  from nullspace_annihilated [OF default_matrix_uniform [OF wfK] x]
  have annK: "annihilated (default_matrix FK) x" and lenx: "length x = cols (default_matrix FK)"
    by simp_all
  have rowK: "dot (edge_row F ?order e) x = 0" if e: "e \<in> set ?K" for e
  proof -
    have "set (edge_order_of FK True) = set ?K"
      by (simp add: edge_order_of_def gK Graph_init_def)
    with e have "edge_row FK ?order e \<in> set (default_matrix FK)"
      unfolding MK orderK by simp
    with annK have "dot (edge_row FK ?order e) x = 0"
      by (simp add: annihilated_def list_all_iff)
    moreover have "position FK w = position F w" if "w \<in> set (vertices ?g)" for w
      using Framework_init_result(3) [OF FK that]
      by (simp add: position_def get_realization_def)
    then have "edge_row FK ?order e = edge_row F ?order e"
      using e by (intro edge_row_positions) (simp_all add: vertices_def Graph_init_nodes_set)
    ultimately show ?thesis
      by simp
  qed
  have "dot r x = 0" if r: "r \<in> set (default_matrix F)" for r
  proof -
    from default_matrix_rows [OF r] obtain u v
      where e: "(u, v) \<in> set (edges (fw_graph F))" and row: "r = edge_row F ?order (u, v)"
      by auto
    from wf e have "u \<in> set (vertices (fw_graph F))" and "v \<in> set (vertices (fw_graph F))"
      by (auto simp: well_formed_def graph_ok_def list_all_iff vertices_def)
    with labels have bounds: "0 \<le> u" "u < int ?n" "0 \<le> v" "v < int ?n"
      by auto
    consider (loop) "u = v" | (up) "u < v" | (down) "v < u"
      by linarith
    then show ?thesis
    proof cases
      case loop
      then show ?thesis
        unfolding row by (intro dot_zero_row) (auto dest: edge_row_loop)
    next
      case up
      with bounds have "(u, v) \<in> set ?K"
        by (intro complete_graph_edges_member)
      from rowK [OF this] show ?thesis
        by (simp add: row)
    next
      case down
      with bounds have "(v, u) \<in> set ?K"
        by (intro complete_graph_edges_member)
      from rowK [OF this] down show ?thesis
        by (simp add: row edge_row_swap [of v u])
    qed
  qed
  then have "annihilated (default_matrix F) x"
    by (simp add: annihilated_def list_all_iff)
  with lenx colsK colsM show ?thesis
    by simp
qed

lemma nontrivial_flexes_count:
  assumes wf: "well_formed F"
    and labels: "set (vertices (fw_graph F)) = {0..<int (length (vertices (fw_graph F)))}"
    and FK: "Framework_init (Graph_init (complete_graph_edges (length (vertices (fw_graph F)))))
        (get_realization F) (dimension F) = Inr FK"
  shows "length (slice (orthogonalize (nullspace (default_matrix FK) @ nullspace (default_matrix F)))
           (length (nullspace (default_matrix FK))) (length (nullspace (default_matrix F)) + 1))
         = length (nullspace (default_matrix F)) - length (nullspace (default_matrix FK))"
    and "edges (fw_graph F) \<noteq> [] \<Longrightarrow>
         length (nullspace (default_matrix FK)) \<le> length (nullspace (default_matrix F))"
proof -
  let ?T = "nullspace (default_matrix FK)"
  let ?A = "nullspace (default_matrix F)"
  let ?B = "orthogonalize (?T @ ?A)"
  have general: "length ?B = length ?A \<and> length ?T \<le> length ?A"
    if ne: "edges (fw_graph F) \<noteq> []"
  proof -
    have kernel: "length x = cols (default_matrix F) \<and> annihilated (default_matrix F) x"
      if "x \<in> set ?T" for x
      using wf labels FK ne that by (rule trivial_flexes_in_kernel)
    have sub: "vec ` set ?T \<subseteq> qspan (vec ` set ?A)"
      using kernel nullspace_spans [OF default_matrix_uniform [OF wf]] by blast
    have lens: "length v = cols (default_matrix F)" if "v \<in> set ?T \<union> set ?A" for v
      using that kernel nullspace_length by blast
    have "length ?B = length ?A"
      using lens nullspace_independent distinct_vec_nullspace sub
      by (rule length_orthogonalize_basis)
    moreover have "qdim (vec ` set ?T) \<le> card (vec ` set ?A)"
      using sub by (rule qdim_le_card) simp
    then have "length ?T \<le> length ?A"
      using qdim_eq_card [OF nullspace_independent, of "default_matrix FK"]
      by (simp add: card_vec_nullspace)
    ultimately show ?thesis
      by simp
  qed
  then show "edges (fw_graph F) \<noteq> [] \<Longrightarrow> length ?T \<le> length ?A"
    by simp
  show "length (slice ?B (length ?T) (length ?A + 1)) = length ?A - length ?T"
  proof (cases "edges (fw_graph F) = []")
    case True
    then have A: "?A = []"
      by (simp add: default_matrix_def edge_order_of_def)
    show ?thesis
    proof (cases "?T = []")
      case True
      with A show ?thesis
        by (simp add: slice_def orthogonalize_def)
    next
      case False
      then obtain k where "length ?T = Suc k"
        by (cases ?T) auto
      with A show ?thesis
        by (simp add: slice_def)
    qed
  next
    case False
    from general [OF this] show ?thesis
      by (simp add: slice_def)
  qed
qed


subsection \<open>The orthogonalized vectors are flexes\<close>

lemma perp_to_subspace_annihilated:
  assumes v: "length v = c" "dot v r = 0"
    and ret: "\<And>b. b \<in> set ret \<Longrightarrow> length b = c \<and> dot b r = 0"
  shows "dot (perp_to_subspace v ret) r = 0"
proof -
  have "dot (perp_to_subspace v ret) r
      = dot v r - (\<Sum>b\<leftarrow>ret. projection_coefficient v b * dot b r)"
    unfolding perp_to_subspace_def using v(1) ret by (intro perp_fold_dot) auto
  also have "(\<Sum>b\<leftarrow>ret. projection_coefficient v b * dot b r) = 0"
  proof -
    have "\<forall>b \<in> set ret. dot b r = 0"
      using ret by blast
    then show ?thesis
      by (induction ret) simp_all
  qed
  finally show ?thesis
    using v(2) by simp
qed

lemma gram_schmidt_annihilated:
  assumes "\<And>b. b \<in> set ret \<Longrightarrow> length b = c \<and> annihilated M b"
    and "\<And>v. v \<in> set vs \<Longrightarrow> length v = c \<and> annihilated M v"
    and "b \<in> set (gram_schmidt ret vs)"
  shows "length b = c \<and> annihilated M b"
  using assms
proof (induction vs arbitrary: ret)
  case Nil
  then show ?case by simp
next
  case (Cons v vs)
  let ?perp = "perp_to_subspace v ret"
  have v: "length v = c" "annihilated M v"
    using Cons.prems(2) [of v] by simp_all
  have len: "length ?perp = c"
    using v(1) Cons.prems(1) by (intro perp_to_subspace_length) auto
  have "dot r ?perp = 0" if r: "r \<in> set M" for r
  proof -
    have "dot ?perp r = 0"
    proof (rule perp_to_subspace_annihilated [where c = c])
      show "length v = c" by (rule v(1))
      show "dot v r = 0"
        using v(2) r by (simp add: annihilated_def list_all_iff dot_commute [of v r])
      show "length b = c \<and> dot b r = 0" if "b \<in> set ret" for b
        using Cons.prems(1) [OF that] r
        by (simp add: annihilated_def list_all_iff dot_commute [of b r])
    qed
    then show ?thesis
      by (simp add: dot_commute [of r])
  qed
  then have "annihilated M ?perp"
    by (simp add: annihilated_def list_all_iff)
  with len have perp: "length ?perp = c \<and> annihilated M ?perp"
    by simp
  have kept: "length b = c \<and> annihilated M b" if "b \<in> set (keep_nonzero ret ?perp)" for b
  proof (cases "b = ?perp")
    case True
    with perp show ?thesis by simp
  next
    case False
    with that have "b \<in> set ret"
      by (simp add: keep_nonzero_def split: if_splits)
    then show ?thesis
      by (rule Cons.prems(1))
  qed
  show ?case
  proof (rule Cons.IH [of "keep_nonzero ret ?perp"])
    show "length b = c \<and> annihilated M b" if "b \<in> set (keep_nonzero ret ?perp)" for b
      using that by (rule kept)
    show "length v = c \<and> annihilated M v" if "v \<in> set vs" for v
      using Cons.prems(2) [of v] that by simp
    show "b \<in> set (gram_schmidt (keep_nonzero ret ?perp) vs)"
      using Cons.prems(3) by simp
  qed
qed

lemma orthogonalize_annihilated:
  assumes "\<And>v. v \<in> set vs \<Longrightarrow> length v = c \<and> annihilated M v"
    and "b \<in> set (orthogonalize vs)"
  shows "annihilated M b"
proof -
  have kept: "length v = c \<and> annihilated M v" if "v \<in> set (dropWhile is_zero_matrix vs)" for v
    by (rule assms(1) [OF set_dropWhileD [OF that]])
  have "length b = c \<and> annihilated M b"
  proof (rule gram_schmidt_annihilated [of "[]" c M "dropWhile is_zero_matrix vs"])
    show "length b = c \<and> annihilated M b" if "b \<in> set []" for b
      using that by simp
    show "length v = c \<and> annihilated M v" if "v \<in> set (dropWhile is_zero_matrix vs)" for v
      using that by (rule kept)
    show "b \<in> set (gram_schmidt [] (dropWhile is_zero_matrix vs))"
      using assms(2) by (simp add: orthogonalize_def)
  qed
  then show ?thesis
    by simp
qed

lemma orthogonalize_nonzero:
  assumes "\<And>v. v \<in> set vs \<Longrightarrow> length v = c" and "b \<in> set (orthogonalize vs)"
  shows "\<not> is_zero_matrix b"
proof -
  have "length v = c" if "v \<in> set (dropWhile is_zero_matrix vs)" for v
    by (rule assms(1) [OF set_dropWhileD [OF that]])
  from gs_loop [OF gs_invariant_Nil this]
  have "gs_invariant c (gram_schmidt [] (dropWhile is_zero_matrix vs))"
    by simp
  then have "\<forall>b \<in> set (orthogonalize vs). \<not> is_zero_matrix b"
    by (simp add: orthogonalize_def gs_invariant_def)
  with assms(2) show ?thesis
    by blast
qed

lemma set_slice: "set (slice xs a b) \<subseteq> set xs"
  unfolding slice_def using set_take_subset set_drop_subset by fast

lemma nontrivial_flexes_are_flexes:
  assumes wf: "well_formed F"
    and labels: "set (vertices (fw_graph F)) = {0..<int (length (vertices (fw_graph F)))}"
    and FK: "Framework_init (Graph_init (complete_graph_edges (length (vertices (fw_graph F)))))
        (get_realization F) (dimension F) = Inr FK"
    and ne: "edges (fw_graph F) \<noteq> []"
    and x: "x \<in> set (slice (orthogonalize (nullspace (default_matrix FK) @ nullspace (default_matrix F)))
           (length (nullspace (default_matrix FK))) (length (nullspace (default_matrix F)) + 1))"
  shows "annihilated (default_matrix F) x \<and> \<not> is_zero_matrix x"
proof -
  let ?T = "nullspace (default_matrix FK)"
  let ?A = "nullspace (default_matrix F)"
  have member: "length v = cols (default_matrix F) \<and> annihilated (default_matrix F) v"
    if "v \<in> set (?T @ ?A)" for v
  proof (cases "v \<in> set ?T")
    case True
    with wf labels FK ne show ?thesis
      by (rule trivial_flexes_in_kernel)
  next
    case False
    with that have "v \<in> set ?A"
      by simp
    from nullspace_annihilated [OF default_matrix_uniform [OF wf] this] show ?thesis
      by simp
  qed
  from x set_slice have mem: "x \<in> set (orthogonalize (?T @ ?A))"
    by fast
  have lens: "length v = cols (default_matrix F)" if "v \<in> set (?T @ ?A)" for v
    using member [OF that] by simp
  have "annihilated (default_matrix F) x"
    using member mem by (rule orthogonalize_annihilated)
  moreover have "\<not> is_zero_matrix x"
    using lens mem by (rule orthogonalize_nonzero)
  ultimately show ?thesis
    by simp
qed


subsection \<open>The flexes\<close>

text \<open>
  Claim C4, as amended. For a well-formed framework whose graph has an edge,
  \<open>infinitesimal_flexes\<close> with \<open>include_trivial\<close> returns the nullspace basis of the
  rigidity matrix \<open>M\<close>: \<open>a = dim * |V| - rank M\<close> vectors, each of which solves
  \<open>M x = 0\<close>. When moreover the vertices are labelled \<open>0, ..., |V| - 1\<close>, the
  complete-graph framework on these labels is built from the same realization, its
  nullspace basis is the list of the \<open>t\<close> trivial flexes, and
  \<open>nontrivial_infinitesimal_flexes\<close> returns the entries of the orthogonalized family
  (trivial flexes, then all flexes) from position \<open>t\<close> up to position \<open>a\<close>. Then
  \<open>t \<le> a\<close>, the result has exactly \<open>a - t = (dim * |V| - rank M) - t\<close> vectors, and
  each of them is a nonzero solution of \<open>M x = 0\<close>: the number of trivial flexes is
  taken from the nullspace, not from \<open>dim * (dim + 1) / 2\<close>.
\<close>

theorem flexes_from_nullspaces:
  assumes wf: "well_formed F" and ne: "edges (fw_graph F) \<noteq> []"
  shows "\<exists>M. rigidity_matrix F None True = Inr M \<and>
      infinitesimal_flexes F True = Inr (nullspace M) \<and>
      list_all (annihilated M) (nullspace M) \<and>
      int (length (nullspace M))
        = dimension F * int (length (vertices (fw_graph F))) - int (rank M) \<and>
      (set (vertices (fw_graph F)) = {0..<int (length (vertices (fw_graph F)))} \<longrightarrow>
         (\<exists>FK MK L.
            Framework_init (Graph_init (complete_graph_edges (length (vertices (fw_graph F)))))
              (get_realization F) (dimension F) = Inr FK \<and>
            rigidity_matrix FK None True = Inr MK \<and>
            trivial_infinitesimal_flexes F = Inr (nullspace MK) \<and>
            L = slice (orthogonalize (nullspace MK @ nullspace M))
                  (length (nullspace MK)) (length (nullspace M) + 1) \<and>
            nontrivial_infinitesimal_flexes F = Inr L \<and>
            length (nullspace MK) \<le> length (nullspace M) \<and>
            int (length L) = int (length (nullspace M)) - int (length (nullspace MK)) \<and>
            int (length L)
              = dimension F * int (length (vertices (fw_graph F))) - int (rank M)
                - int (length (nullspace MK)) \<and>
            list_all (annihilated M) L \<and>
            list_all (\<lambda>x. \<not> is_zero_matrix x) L))"
proof -
  let ?M = "default_matrix F"
  let ?n = "length (vertices (fw_graph F))"
  have M: "rigidity_matrix F None True = Inr ?M"
    by (rule rigidity_matrix_default [OF wf])
  then have all: "infinitesimal_flexes F True = Inr (nullspace ?M)"
    by (simp add: infinitesimal_flexes_def all_infinitesimal_flexes_def)
  have solve: "list_all (annihilated ?M) (nullspace ?M)"
    using nullspace_annihilated [OF default_matrix_uniform [OF wf]]
    by (simp add: list_all_iff)
  have count: "int (length (nullspace ?M)) = dimension F * int ?n - int (rank ?M)"
    by (rule all_flexes_count [OF wf ne])
  have nontrivial: "\<exists>FK MK L.
      Framework_init (Graph_init (complete_graph_edges ?n)) (get_realization F) (dimension F)
        = Inr FK \<and>
      rigidity_matrix FK None True = Inr MK \<and>
      trivial_infinitesimal_flexes F = Inr (nullspace MK) \<and>
      L = slice (orthogonalize (nullspace MK @ nullspace ?M))
            (length (nullspace MK)) (length (nullspace ?M) + 1) \<and>
      nontrivial_infinitesimal_flexes F = Inr L \<and>
      length (nullspace MK) \<le> length (nullspace ?M) \<and>
      int (length L) = int (length (nullspace ?M)) - int (length (nullspace MK)) \<and>
      int (length L) = dimension F * int ?n - int (rank ?M) - int (length (nullspace MK)) \<and>
      list_all (annihilated ?M) L \<and>
      list_all (\<lambda>x. \<not> is_zero_matrix x) L"
    if labels: "set (vertices (fw_graph F)) = {0..<int ?n}"
  proof -
    from complete_framework_built [OF wf labels] obtain FK
      where FK: "Framework_init (Graph_init (complete_graph_edges ?n)) (get_realization F)
          (dimension F) = Inr FK"
        and wfK: "well_formed FK"
      by blast
    let ?MK = "default_matrix FK"
    let ?L = "slice (orthogonalize (nullspace ?MK @ nullspace ?M))
        (length (nullspace ?MK)) (length (nullspace ?M) + 1)"
    have MK: "rigidity_matrix FK None True = Inr ?MK"
      by (rule rigidity_matrix_default [OF wfK])
    have trivial: "trivial_infinitesimal_flexes F = Inr (nullspace ?MK)"
      using FK MK by (simp add: trivial_infinitesimal_flexes_def all_infinitesimal_flexes_def)
    have result: "nontrivial_infinitesimal_flexes F = Inr ?L"
      using trivial M
      by (simp add: nontrivial_infinitesimal_flexes_def infinitesimal_flexes_def Let_def)
    have le: "length (nullspace ?MK) \<le> length (nullspace ?M)"
      by (rule nontrivial_flexes_count(2) [OF wf labels FK ne])
    have "length ?L = length (nullspace ?M) - length (nullspace ?MK)"
      by (rule nontrivial_flexes_count(1) [OF wf labels FK])
    with le have len: "int (length ?L) = int (length (nullspace ?M)) - int (length (nullspace ?MK))"
      by simp
    with count
    have len': "int (length ?L) = dimension F * int ?n - int (rank ?M) - int (length (nullspace ?MK))"
      by simp
    have flexes: "list_all (annihilated ?M) ?L" "list_all (\<lambda>x. \<not> is_zero_matrix x) ?L"
      using nontrivial_flexes_are_flexes [OF wf labels FK ne] by (simp_all add: list_all_iff)
    from FK MK trivial result le len len' flexes show ?thesis
      by blast
  qed
  from M all solve count nontrivial show ?thesis
    by blast
qed

theorem flexes_from_nullspaces_witness:
  "well_formed path_framework \<and>
   edges (fw_graph path_framework) \<noteq> [] \<and>
   set (vertices (fw_graph path_framework))
     = {0..<int (length (vertices (fw_graph path_framework)))} \<and>
   rigidity_matrix path_framework None True
     = Inr [[- 1, 0, 1, 0, 0, 0], [0, 0, 1, - 1, - 1, 1]] \<and>
   rank [[- 1, 0, 1, 0, 0, 0], [0, 0, 1, - 1, - 1, 1]] = 2 \<and>
   infinitesimal_flexes path_framework True
     = Inr [[0, 1, 0, 0, 0, 0], [1, 0, 1, 1, 0, 0], [1, 0, 1, 0, 1, 0], [- 1, 0, - 1, 0, 0, 1]] \<and>
   list_all (annihilated [[- 1, 0, 1, 0, 0, 0], [0, 0, 1, - 1, - 1, 1]])
     [[0, 1, 0, 0, 0, 0], [1, 0, 1, 1, 0, 0], [1, 0, 1, 0, 1, 0], [- 1, 0, - 1, 0, 0, 1]] \<and>
   trivial_infinitesimal_flexes path_framework
     = Inr [[1, 0, 1, 1, 0, 0], [1, 0, 1, 0, 1, 0], [- 1, 1, - 1, 0, 0, 1]] \<and>
   nontrivial_infinitesimal_flexes path_framework
     = Inr [[1 / 12, 7 / 12, 1 / 12, - (1 / 6), - (1 / 6), - (5 / 12)]] \<and>
   int (length [[1 / 12, 7 / 12, 1 / 12, - (1 / 6), - (1 / 6), - (5 / 12 :: rat)]])
     = dimension path_framework * int (length (vertices (fw_graph path_framework)))
       - int (rank [[- 1, 0, 1, 0, 0, 0], [0, 0, 1, - 1, - 1, 1]]) - 3 \<and>
   annihilated [[- 1, 0, 1, 0, 0, 0], [0, 0, 1, - 1, - 1, 1]]
     [1 / 12, 7 / 12, 1 / 12, - (1 / 6), - (1 / 6), - (5 / 12)]"
proof -
  let ?M = "[[- 1, 0, 1, 0, 0, 0], [0, 0, 1, - 1, - 1, 1]] :: matrix"
  let ?MK = "[[- 1, 0, 1, 0, 0, 0], [0, - 1, 0, 0, 0, 1], [0, 0, 1, - 1, - 1, 1]] :: matrix"
  let ?A = "[[0, 1, 0, 0, 0, 0], [1, 0, 1, 1, 0, 0], [1, 0, 1, 0, 1, 0],
      [- 1, 0, - 1, 0, 0, 1]] :: rat list list"
  let ?T = "[[1, 0, 1, 1, 0, 0], [1, 0, 1, 0, 1, 0], [- 1, 1, - 1, 0, 0, 1]] :: rat list list"
  let ?x = "[1 / 12, 7 / 12, 1 / 12, - (1 / 6), - (1 / 6), - (5 / 12)] :: rat list"
  have wf: "well_formed path_framework"
    by code_simp
  have ne: "edges (fw_graph path_framework) \<noteq> []"
    by (simp add: path_framework_def)
  have labels: "set (vertices (fw_graph path_framework))
      = {0..<int (length (vertices (fw_graph path_framework)))}"
    by (auto simp: path_framework_def vertices_def)
  have shape: "length (vertices (fw_graph path_framework)) = 3" "dimension path_framework = 2"
    by (simp_all add: path_framework_def vertices_def dimension_def)
  have M: "rigidity_matrix path_framework None True = Inr ?M"
    by code_simp
  have K: "Framework_init (Graph_init (complete_graph_edges 3)) (get_realization path_framework) 2
      = Inr triangle"
    by code_simp
  have MK: "rigidity_matrix triangle None True = Inr ?MK"
    by code_simp
  have A: "nullspace ?M = ?A"
    by code_simp
  have T: "nullspace ?MK = ?T"
    by code_simp
  have rank: "rank ?M = 2"
    by code_simp
  have B: "orthogonalize (?T @ ?A)
      = [[1, 0, 1, 1, 0, 0], [1 / 3, 0, 1 / 3, - (2 / 3), 1, 0],
         [- (1 / 5), 1, - (1 / 5), 2 / 5, 2 / 5, 1], ?x]"
    by (simp add: orthogonalize_def keep_nonzero_def perp_to_subspace_def project_def dot_def
        is_zero_matrix_def)
  have L: "slice (orthogonalize (?T @ ?A)) (length ?T) (length ?A + 1) = [?x]"
    unfolding B by (simp add: slice_def)
  from flexes_from_nullspaces [OF wf ne] M labels shape K MK
  have "infinitesimal_flexes path_framework True = Inr (nullspace ?M)"
    and "list_all (annihilated ?M) (nullspace ?M)"
    and "trivial_infinitesimal_flexes path_framework = Inr (nullspace ?MK)"
    and "nontrivial_infinitesimal_flexes path_framework
      = Inr (slice (orthogonalize (nullspace ?MK @ nullspace ?M))
              (length (nullspace ?MK)) (length (nullspace ?M) + 1))"
    and "int (length (slice (orthogonalize (nullspace ?MK @ nullspace ?M))
              (length (nullspace ?MK)) (length (nullspace ?M) + 1)))
      = 2 * 3 - int (rank ?M) - int (length (nullspace ?MK))"
    and "list_all (annihilated ?M) (slice (orthogonalize (nullspace ?MK @ nullspace ?M))
              (length (nullspace ?MK)) (length (nullspace ?M) + 1))"
    by auto
  then have "infinitesimal_flexes path_framework True = Inr ?A"
    and "list_all (annihilated ?M) ?A"
    and "trivial_infinitesimal_flexes path_framework = Inr ?T"
    and "nontrivial_infinitesimal_flexes path_framework = Inr [?x]"
    and "int (length [?x]) = 2 * 3 - int (rank ?M) - 3"
    and "annihilated ?M ?x"
    unfolding A T L by simp_all
  with wf ne labels M rank shape show ?thesis
    by simp
qed

text \<open>
  The claim as stated fails in both parts. Three points on a line with all three edges
  are at least \<open>dim + 1\<close> vertices; the rank is 2, so the claim promises
  \<open>(2 * 3 - 2) - 3 = 1\<close> nontrivial flex, but all four flexes of the complete graph on
  collinear points count as trivial and none is returned. And a framework without
  edges has the \<open>0 \<times> 0\<close> matrix, whose nullspace basis is empty, where the claim
  promises \<open>2 * 2 - 0 = 4\<close> flexes.
\<close>

theorem nontrivial_flexes_count_counterexample:
  "rigidity_matrix collinear_triangle None True
     = Inr [[- 1, 0, 1, 0, 0, 0], [- 2, 0, 0, 0, 2, 0], [0, 0, - 1, 0, 1, 0]] \<and>
   rank [[- 1, 0, 1, 0, 0, 0], [- 2, 0, 0, 0, 2, 0], [0, 0, - 1, 0, 1, 0]] = 2 \<and>
   length (vertices (fw_graph collinear_triangle)) = 3 \<and>
   dimension collinear_triangle = 2 \<and>
   nontrivial_infinitesimal_flexes collinear_triangle = Inr [] \<and>
   int (length ([] :: rat list list)) \<noteq> (2 * 3 - 2) - (2 * (2 + 1)) div 2 \<and>
   rigidity_matrix two_points None True = Inr [] \<and>
   rank [] = 0 \<and>
   length (vertices (fw_graph two_points)) = 2 \<and>
   dimension two_points = 2 \<and>
   infinitesimal_flexes two_points True = Inr [] \<and>
   int (length ([] :: rat list list)) \<noteq> 2 * 2 - 0"
proof -
  have "rigidity_matrix two_points None True = Inr []"
    by code_simp
  moreover have "rank [] = 0"
    by code_simp
  ultimately show ?thesis
    using collinear_matrix collinear_rank collinear_nontrivial two_points_flexes
    by (simp add: collinear_triangle_def two_points_def vertices_def dimension_def)
qed

end
